theory Spec2Isabelle
  imports Main "HOL-Library.Char_ord" "HOL-Library.Monad_Syntax"
begin

section \<open>Go strings\<close>

text \<open>
  A Go string is a sequence of bytes, and so is \<^typ>\<open>string\<close>. An index expression
  \<^verbatim>\<open>s[k]\<close> and a slice expression \<^verbatim>\<open>s[a:b]\<close> panic at run time when they
  leave the string, so both are partial here: \<open>None\<close> is the panic. Go's \<^verbatim>\<open>&&\<close> and
  \<^verbatim>\<open>||\<close> evaluate their right operand only when the left one does not decide the
  result; \<open>andalso\<close> and \<open>orelse\<close> keep that order, so a read that the source guards
  is not performed when the guard fails.
\<close>

definition byte_at :: "string \<Rightarrow> nat \<Rightarrow> char option" where
  "byte_at s k = (if k < length s then Some (s ! k) else None)"

definition slice :: "string \<Rightarrow> nat \<Rightarrow> nat \<Rightarrow> string option" where
  "slice s a b = (if a \<le> b \<and> b \<le> length s then Some (take (b - a) (drop a s)) else None)"

definition slice_from :: "string \<Rightarrow> nat \<Rightarrow> string option" where
  "slice_from s a = slice s a (length s)"

definition andalso :: "bool option \<Rightarrow> bool option \<Rightarrow> bool option" where
  "andalso a b = (case a of None \<Rightarrow> None | Some x \<Rightarrow> if x then b else Some False)"

definition orelse :: "bool option \<Rightarrow> bool option \<Rightarrow> bool option" where
  "orelse a b = (case a of None \<Rightarrow> None | Some x \<Rightarrow> if x then Some True else b)"

definition byte_is :: "string \<Rightarrow> nat \<Rightarrow> char \<Rightarrow> bool option" where
  "byte_is s k c = map_option (\<lambda>x. x = c) (byte_at s k)"

definition byte_isnt :: "string \<Rightarrow> nat \<Rightarrow> char \<Rightarrow> bool option" where
  "byte_isnt s k c = map_option (\<lambda>x. x \<noteq> c) (byte_at s k)"

text \<open>
  The conversion \<^verbatim>\<open>string(char)\<close> of a byte yields the UTF-8 text of the code point
  with that number: one byte below 128, two bytes from 128 on.
\<close>

definition string_of_byte :: "char \<Rightarrow> string" where
  "string_of_byte c =
     (let n = (of_char c :: nat)
      in if n < 128 then [c] else [char_of (192 + n div 64), char_of (128 + n mod 64)])"

text \<open>The functions of Go's package \<^verbatim>\<open>strings\<close> that the tokenizers and explainers call.\<close>

definition HasPrefix :: "string \<Rightarrow> string \<Rightarrow> bool" where
  "HasPrefix s pre = (length pre \<le> length s \<and> take (length pre) s = pre)"

definition HasSuffix :: "string \<Rightarrow> string \<Rightarrow> bool" where
  "HasSuffix s suf = (length suf \<le> length s \<and> drop (length s - length suf) s = suf)"

fun IndexByte :: "string \<Rightarrow> char \<Rightarrow> int" where
  "IndexByte [] c = - 1"
| "IndexByte (x # xs) c =
     (if x = c then 0 else (let r = IndexByte xs c in if r < 0 then - 1 else r + 1))"

fun Index :: "string \<Rightarrow> string \<Rightarrow> int" where
  "Index [] sub = (if sub = [] then 0 else - 1)"
| "Index (x # xs) sub =
     (if HasPrefix (x # xs) sub then 0
      else (let r = Index xs sub in if r < 0 then - 1 else r + 1))"

fun LastIndex :: "string \<Rightarrow> string \<Rightarrow> int" where
  "LastIndex [] sub = (if sub = [] then 0 else - 1)"
| "LastIndex (x # xs) sub =
     (let r = LastIndex xs sub
      in if 0 \<le> r then r + 1 else if HasPrefix (x # xs) sub then 0 else - 1)"

definition Contains :: "string \<Rightarrow> string \<Rightarrow> bool" where
  "Contains s sub = (0 \<le> Index s sub)"

fun Join :: "string list \<Rightarrow> string \<Rightarrow> string" where
  "Join [] sep = []"
| "Join [x] sep = x"
| "Join (x # y # ys) sep = x @ sep @ Join (y # ys) sep"

definition isHexDigit :: "char \<Rightarrow> bool" where
  "isHexDigit b = ((CHR ''0'' \<le> b \<and> b \<le> CHR ''9'') \<or> (CHR ''a'' \<le> b \<and> b \<le> CHR ''f'')
                    \<or> (CHR ''A'' \<le> b \<and> b \<le> CHR ''F''))"

section \<open>Scan primitives (format.go)\<close>

text \<open>
  \<^verbatim>\<open>FindClosingBracket\<close> and \<^verbatim>\<open>FindClosingCurlyBrace\<close> walk the pattern from
  \<open>start + 1\<close> and return the index of the first closer they accept, or \<open>-1\<close>. Their callers
  pass a loop index for \<open>start\<close>, which is never negative.
\<close>

function FindClosingBracket_from :: "string \<Rightarrow> nat \<Rightarrow> nat \<Rightarrow> int option" where
  "FindClosingBracket_from pattern start i =
     (if i < length pattern then
        do { b \<leftarrow> andalso (byte_is pattern i (CHR '']''))
                    (orelse (Some (i = start + 1)) (byte_isnt pattern (i - 1) (CHR 0x5C)));
             if b then Some (int i) else FindClosingBracket_from pattern start (i + 1) }
      else Some (- 1))"
  by pat_completeness auto
termination
  by (relation "measure (\<lambda>(pattern, start, i). length pattern - i)") auto

declare FindClosingBracket_from.simps [simp del]

definition FindClosingBracket :: "string \<Rightarrow> nat \<Rightarrow> int option" where
  "FindClosingBracket pattern start = FindClosingBracket_from pattern start (start + 1)"

function FindClosingCurlyBrace_from :: "string \<Rightarrow> nat \<Rightarrow> int option" where
  "FindClosingCurlyBrace_from pattern i =
     (if i < length pattern then
        do { b \<leftarrow> andalso (byte_is pattern i (CHR ''}'')) (byte_isnt pattern (i - 1) (CHR 0x5C));
             if b then Some (int i) else FindClosingCurlyBrace_from pattern (i + 1) }
      else Some (- 1))"
  by pat_completeness auto
termination
  by (relation "measure (\<lambda>(pattern, i). length pattern - i)") auto

declare FindClosingCurlyBrace_from.simps [simp del]

definition FindClosingCurlyBrace :: "string \<Rightarrow> nat \<Rightarrow> int option" where
  "FindClosingCurlyBrace pattern start = FindClosingCurlyBrace_from pattern (start + 1)"

section \<open>The tokenizer loop\<close>

text \<open>
  Every tokenizer runs \<^verbatim>\<open>for i := 0; i < len(pattern); i++ { ... }\<close> over the state
  \<open>tokens\<close>, \<open>currentToken\<close> (written \<open>cur\<close>) and \<open>i\<close>. The loop body is a sequence of \<^verbatim>\<open>if\<close>
  blocks. A block either ends the iteration with \<^verbatim>\<open>continue\<close>, possibly after moving
  \<open>i\<close> forward, or is left for the next block, possibly after flushing
  \<open>currentToken\<close>. \<open>falls\<close> chains a block to the rest of the body; the body returns the
  state at the end of the iteration and \<open>for_loop\<close> then increments \<open>i\<close>. A body
  that panics, or a loop that does not come to its end, gives \<open>None\<close>.
\<close>

datatype flow = Continue "string list" string nat | Fallthrough "string list" string

definition falls ::
  "flow option \<Rightarrow> (string list \<Rightarrow> string \<Rightarrow> (string list \<times> string \<times> nat) option)
     \<Rightarrow> (string list \<times> string \<times> nat) option" where
  "falls r rest = (case r of None \<Rightarrow> None
                   | Some (Continue t c j) \<Rightarrow> Some (t, c, j)
                   | Some (Fallthrough t c) \<Rightarrow> rest t c)"

partial_function (option) for_loop ::
  "(string \<Rightarrow> string list \<Rightarrow> string \<Rightarrow> nat \<Rightarrow> (string list \<times> string \<times> nat) option)
     \<Rightarrow> string \<Rightarrow> string list \<Rightarrow> string \<Rightarrow> nat \<Rightarrow> (string list \<times> string) option" where
  "for_loop body pattern tokens cur i =
     (if i < length pattern then
        do { (t, c, j) \<leftarrow> body pattern tokens cur i;
             for_loop body pattern t c (j + 1) }
      else Some (tokens, cur))"

declare for_loop.simps [code]

text \<open>
  \<^verbatim>\<open>if currentToken.Len() > 0 { tokens = append(tokens, currentToken.String());
  currentToken.Reset() }\<close>
\<close>

definition flush :: "string list \<Rightarrow> string \<Rightarrow> string list \<times> string" where
  "flush tokens cur = (if length cur > 0 then (tokens @ [cur], []) else (tokens, cur))"

text \<open>
  \<^verbatim>\<open>end := FindClosingBracket(pattern, i); if end > i { tokens = append(tokens,
  pattern[i:end+1]); i = end; continue }\<close>, the end of the character-class block in all
  five tokenizers; \<open>currentToken\<close> has been flushed before.
\<close>

definition bracket_token :: "string \<Rightarrow> string list \<Rightarrow> string \<Rightarrow> nat \<Rightarrow> flow option" where
  "bracket_token pattern tokens cur i =
     do { end \<leftarrow> FindClosingBracket pattern i;
          if end > int i then
            do { tok \<leftarrow> slice pattern i (nat end + 1);
                 Some (Continue (tokens @ [tok]) cur (nat end)) }
          else Some (Fallthrough tokens cur) }"

text \<open>The block for character classes, the same text in the Go, PCRE, JS and Python tokenizers.\<close>

definition class_block :: "string \<Rightarrow> char \<Rightarrow> string list \<Rightarrow> string \<Rightarrow> nat \<Rightarrow> flow option" where
  "class_block pattern char tokens cur i =
     (if char = CHR ''['' then
        (case flush tokens cur of (tokens, cur) \<Rightarrow> bracket_token pattern tokens cur i)
      else Some (Fallthrough tokens cur))"

text \<open>The block for escape sequences of the Go, PCRE, POSIX and JS tokenizers.\<close>

definition escape_block :: "string \<Rightarrow> char \<Rightarrow> string list \<Rightarrow> string \<Rightarrow> nat \<Rightarrow> flow option" where
  "escape_block pattern char tokens cur i =
     (if char = CHR 0x5C \<and> i + 1 < length pattern then
        (case flush tokens cur of (tokens, cur) \<Rightarrow>
           do { tok \<leftarrow> slice pattern i (i + 2);
                Some (Continue (tokens @ [tok]) cur (i + 1)) })
      else Some (Fallthrough tokens cur))"

text \<open>The block for brace quantifiers, the same text in all five tokenizers.\<close>

definition brace_block :: "string \<Rightarrow> char \<Rightarrow> string list \<Rightarrow> string \<Rightarrow> nat \<Rightarrow> flow option" where
  "brace_block pattern char tokens cur i =
     (if char = CHR ''{'' then
        (case flush tokens cur of (tokens, cur) \<Rightarrow>
           do { end \<leftarrow> FindClosingCurlyBrace pattern i;
                if end > int i then
                  do { tok \<leftarrow> slice pattern i (nat end + 1);
                       Some (Continue (tokens @ [tok]) cur (nat end)) }
                else Some (Fallthrough tokens cur) })
      else Some (Fallthrough tokens cur))"

text \<open>
  A block that emits the current byte as a token of its own: the simple quantifiers of the
  Go and POSIX tokenizers, the POSIX group opener, and in all five \<open>)\<close>, \<open>|\<close>, the
  anchors and the dot. \<open>hit\<close> is the block's condition on \<open>char\<close>.
\<close>

definition single_block :: "bool \<Rightarrow> char \<Rightarrow> string list \<Rightarrow> string \<Rightarrow> nat \<Rightarrow> flow option" where
  "single_block hit char tokens cur i =
     (if hit then
        (case flush tokens cur of (tokens, cur) \<Rightarrow>
           Some (Continue (tokens @ [string_of_byte char]) cur i))
      else Some (Fallthrough tokens cur))"

definition is_quantifier :: "char \<Rightarrow> bool" where
  "is_quantifier char = (char = CHR ''*'' \<or> char = CHR ''+'' \<or> char = CHR ''?'')"

text \<open>
  The simple quantifiers with a suffix: PCRE takes a following \<open>+\<close> (possessive), JS and
  Python take a following \<open>?\<close> (non-greedy). \<open>sfx\<close> is that byte.
\<close>

definition suffix_quantifier_block ::
  "char \<Rightarrow> string \<Rightarrow> char \<Rightarrow> string list \<Rightarrow> string \<Rightarrow> nat \<Rightarrow> flow option" where
  "suffix_quantifier_block sfx pattern char tokens cur i =
     (if is_quantifier char then
        (case flush tokens cur of (tokens, cur) \<Rightarrow>
           do { b \<leftarrow> andalso (Some (i + 1 < length pattern)) (byte_is pattern (i + 1) sfx);
                if b then Some (Continue (tokens @ [string_of_byte char @ [sfx]]) cur (i + 1))
                else Some (Continue (tokens @ [string_of_byte char]) cur i) })
      else Some (Fallthrough tokens cur))"

text \<open>
  A named group header: \<^verbatim>\<open>endName := strings.IndexByte(pattern[i+k:], '>')\<close>, then the
  token up to the \<open>>\<close> if there is one, else the bare \<open>(\<close>. The result is the new
  \<open>tokens\<close> and \<open>i\<close>.
\<close>

definition named_group ::
  "nat \<Rightarrow> string \<Rightarrow> char \<Rightarrow> string list \<Rightarrow> nat \<Rightarrow> (string list \<times> nat) option" where
  "named_group k pattern char tokens i =
     do { rest \<leftarrow> slice_from pattern (i + k);
          let endName = IndexByte rest (CHR ''>'');
          if 0 \<le> endName then
            do { let endName = endName + int (i + k);
                 tok \<leftarrow> slice pattern i (nat endName + 1);
                 Some (tokens @ [tok], nat endName) }
          else Some (tokens @ [string_of_byte char], i) }"

text \<open>
  \<^verbatim>\<open>case '<'\<close> of the group switch, the same text in the PCRE, JS and Python
  tokenizers: lookbehind or a named group \<open>(?<name>\<close>.
\<close>

definition lookbehind_or_named ::
  "string \<Rightarrow> char \<Rightarrow> string list \<Rightarrow> nat \<Rightarrow> (string list \<times> nat) option" where
  "lookbehind_or_named pattern char tokens i =
     (if i + 3 < length pattern then
        do { pos \<leftarrow> byte_is pattern (i + 3) (CHR ''='');
             if pos then Some (tokens @ [''(?<=''], i + 3)
             else do { neg \<leftarrow> byte_is pattern (i + 3) (CHR ''!'');
                       if neg then Some (tokens @ [''(?<!''], i + 3)
                       else named_group 3 pattern char tokens i } }
      else Some (tokens @ [string_of_byte char], i))"

text \<open>\<^verbatim>\<open>case 'P'\<close> of the Go and PCRE tokenizers: the named group \<open>(?P<name>\<close>.\<close>

definition p_named ::
  "string \<Rightarrow> char \<Rightarrow> string list \<Rightarrow> nat \<Rightarrow> (string list \<times> nat) option" where
  "p_named pattern char tokens i =
     do { b \<leftarrow> andalso (Some (i + 3 < length pattern)) (byte_is pattern (i + 3) (CHR ''<''));
          if b then named_group 4 pattern char tokens i
          else Some (tokens @ [string_of_byte char], i) }"

text \<open>
  The frame of the group block: flush, test for \<open>(?\<close>, run the dialect's switch on
  \<^verbatim>\<open>pattern[i+2]\<close>, and \<^verbatim>\<open>continue\<close> in every case.
\<close>

definition group_block ::
  "(char \<Rightarrow> string \<Rightarrow> char \<Rightarrow> string list \<Rightarrow> nat \<Rightarrow> (string list \<times> nat) option)
     \<Rightarrow> string \<Rightarrow> char \<Rightarrow> string list \<Rightarrow> string \<Rightarrow> nat \<Rightarrow> flow option" where
  "group_block switch pattern char tokens cur i =
     (if char = CHR ''('' then
        (case flush tokens cur of (tokens, cur) \<Rightarrow>
           do { special \<leftarrow> andalso (Some (i + 2 < length pattern)) (byte_is pattern (i + 1) (CHR ''?''));
                if special then
                  do { sel \<leftarrow> byte_at pattern (i + 2);
                       (tokens, i) \<leftarrow> switch sel pattern char tokens i;
                       Some (Continue tokens cur i) }
                else Some (Continue (tokens @ [string_of_byte char]) cur i) })
      else Some (Fallthrough tokens cur))"

section \<open>The Go tokenizer\<close>

definition Go_switch ::
  "char \<Rightarrow> string \<Rightarrow> char \<Rightarrow> string list \<Rightarrow> nat \<Rightarrow> (string list \<times> nat) option" where
  "Go_switch sel pattern char tokens i =
     (if sel = CHR '':'' then Some (tokens @ [''(?:''], i + 2)
      else if sel = CHR ''='' then Some (tokens @ [''(?=''], i + 2)
      else if sel = CHR ''P'' then p_named pattern char tokens i
      else Some (tokens @ [string_of_byte char], i))"

definition Go_body ::
  "string \<Rightarrow> string list \<Rightarrow> string \<Rightarrow> nat \<Rightarrow> (string list \<times> string \<times> nat) option" where
  "Go_body pattern tokens cur i =
     do { char \<leftarrow> byte_at pattern i;
          falls (class_block pattern char tokens cur i) (\<lambda>tokens cur.
          falls (escape_block pattern char tokens cur i) (\<lambda>tokens cur.
          falls (brace_block pattern char tokens cur i) (\<lambda>tokens cur.
          falls (single_block (is_quantifier char) char tokens cur i) (\<lambda>tokens cur.
          falls (group_block Go_switch pattern char tokens cur i) (\<lambda>tokens cur.
          falls (single_block (char = CHR '')'') char tokens cur i) (\<lambda>tokens cur.
          falls (single_block (char = CHR ''|'') char tokens cur i) (\<lambda>tokens cur.
          falls (single_block (char = CHR ''^'' \<or> char = CHR ''$'') char tokens cur i) (\<lambda>tokens cur.
          falls (single_block (char = CHR ''.'') char tokens cur i) (\<lambda>tokens cur.
          Some (tokens, cur @ [char], i)))))))))) }"

definition Go_TokenizeRegex :: "string \<Rightarrow> string list option" where
  "Go_TokenizeRegex pattern =
     do { (tokens, cur) \<leftarrow> for_loop Go_body pattern [] [] 0;
          Some (fst (flush tokens cur)) }"

section \<open>The PCRE tokenizer (pcre.go)\<close>

definition Pcre_switch ::
  "char \<Rightarrow> string \<Rightarrow> char \<Rightarrow> string list \<Rightarrow> nat \<Rightarrow> (string list \<times> nat) option" where
  "Pcre_switch sel pattern char tokens i =
     (if sel = CHR '':'' then Some (tokens @ [''(?:''], i + 2)
      else if sel = CHR ''='' then Some (tokens @ [''(?=''], i + 2)
      else if sel = CHR ''!'' then Some (tokens @ [''(?!''], i + 2)
      else if sel = CHR ''<'' then lookbehind_or_named pattern char tokens i
      else if sel = CHR ''>'' then Some (tokens @ [''(?>''], i + 2)
      else if sel = CHR ''P'' then p_named pattern char tokens i
      else Some (tokens @ [string_of_byte char], i))"

definition Pcre_body ::
  "string \<Rightarrow> string list \<Rightarrow> string \<Rightarrow> nat \<Rightarrow> (string list \<times> string \<times> nat) option" where
  "Pcre_body pattern tokens cur i =
     do { char \<leftarrow> byte_at pattern i;
          falls (class_block pattern char tokens cur i) (\<lambda>tokens cur.
          falls (escape_block pattern char tokens cur i) (\<lambda>tokens cur.
          falls (brace_block pattern char tokens cur i) (\<lambda>tokens cur.
          falls (suffix_quantifier_block (CHR ''+'') pattern char tokens cur i) (\<lambda>tokens cur.
          falls (group_block Pcre_switch pattern char tokens cur i) (\<lambda>tokens cur.
          falls (single_block (char = CHR '')'') char tokens cur i) (\<lambda>tokens cur.
          falls (single_block (char = CHR ''|'') char tokens cur i) (\<lambda>tokens cur.
          falls (single_block (char = CHR ''^'' \<or> char = CHR ''$'') char tokens cur i) (\<lambda>tokens cur.
          falls (single_block (char = CHR ''.'') char tokens cur i) (\<lambda>tokens cur.
          Some (tokens, cur @ [char], i)))))))))) }"

definition Pcre_TokenizeRegex :: "string \<Rightarrow> string list option" where
  "Pcre_TokenizeRegex pattern =
     do { (tokens, cur) \<leftarrow> for_loop Pcre_body pattern [] [] 0;
          Some (fst (flush tokens cur)) }"

section \<open>The POSIX tokenizer (posix.go)\<close>

text \<open>
  The character-class block of the POSIX tokenizer first looks for the nested form
  \<open>[[:name:]]\<close>; where that attempt does not emit a token, control reaches the common
  end of the block.
\<close>

definition Posix_class_block ::
  "string \<Rightarrow> char \<Rightarrow> string list \<Rightarrow> string \<Rightarrow> nat \<Rightarrow> flow option" where
  "Posix_class_block pattern char tokens cur i =
     (if char = CHR ''['' then
        (case flush tokens cur of (tokens, cur) \<Rightarrow>
           do { nested \<leftarrow> andalso (Some (i + 2 < length pattern))
                           (andalso (byte_is pattern (i + 1) (CHR ''[''))
                                    (byte_is pattern (i + 2) (CHR '':'')));
                if nested then
                  do { rest \<leftarrow> slice_from pattern i;
                       let end = Index rest '':]'';
                       if end > 3 then
                         do { endBracket \<leftarrow> FindClosingBracket pattern i;
                              if endBracket > int i + end + 2 then
                                do { tok \<leftarrow> slice pattern i (nat endBracket + 1);
                                     Some (Continue (tokens @ [tok]) cur (nat endBracket)) }
                              else bracket_token pattern tokens cur i }
                       else bracket_token pattern tokens cur i }
                else bracket_token pattern tokens cur i })
      else Some (Fallthrough tokens cur))"

definition Posix_body ::
  "string \<Rightarrow> string list \<Rightarrow> string \<Rightarrow> nat \<Rightarrow> (string list \<times> string \<times> nat) option" where
  "Posix_body pattern tokens cur i =
     do { char \<leftarrow> byte_at pattern i;
          falls (Posix_class_block pattern char tokens cur i) (\<lambda>tokens cur.
          falls (escape_block pattern char tokens cur i) (\<lambda>tokens cur.
          falls (brace_block pattern char tokens cur i) (\<lambda>tokens cur.
          falls (single_block (is_quantifier char) char tokens cur i) (\<lambda>tokens cur.
          falls (single_block (char = CHR ''('') char tokens cur i) (\<lambda>tokens cur.
          falls (single_block (char = CHR '')'') char tokens cur i) (\<lambda>tokens cur.
          falls (single_block (char = CHR ''|'') char tokens cur i) (\<lambda>tokens cur.
          falls (single_block (char = CHR ''^'' \<or> char = CHR ''$'') char tokens cur i) (\<lambda>tokens cur.
          falls (single_block (char = CHR ''.'') char tokens cur i) (\<lambda>tokens cur.
          Some (tokens, cur @ [char], i)))))))))) }"

definition Posix_TokenizeRegex :: "string \<Rightarrow> string list option" where
  "Posix_TokenizeRegex pattern =
     do { (tokens, cur) \<leftarrow> for_loop Posix_body pattern [] [] 0;
          Some (fst (flush tokens cur)) }"

section \<open>The JavaScript tokenizer (js.go)\<close>

text \<open>
  The pre-pass strips the envelope \<open>/pattern/flags\<close>. Its result is the initial
  \<open>tokens\<close> (the marker \<open>/flags\<close>, or nothing) and the pattern the loop runs over.
\<close>

definition Js_prepass :: "string \<Rightarrow> (string list \<times> string) option" where
  "Js_prepass pattern =
     do { env \<leftarrow> andalso (Some (length pattern > 2)) (byte_is pattern 0 (CHR ''/''));
          if env then
            (let lastSlashPos = LastIndex pattern ''/'' in
             if lastSlashPos > 0 \<and> lastSlashPos < int (length pattern) - 1 then
               do { flags \<leftarrow> slice_from pattern (nat lastSlashPos + 1);
                    pattern' \<leftarrow> slice pattern 1 (nat lastSlashPos);
                    Some (if length flags > 0 then [''/'' @ flags] else [], pattern') }
             else
               do { d \<leftarrow> andalso (byte_is pattern 0 (CHR ''/''))
                              (byte_is pattern (length pattern - 1) (CHR ''/''));
                    if d then
                      do { pattern' \<leftarrow> slice pattern 1 (length pattern - 1);
                           Some ([], pattern') }
                    else Some ([], pattern) })
          else Some ([], pattern) }"

definition Js_switch ::
  "char \<Rightarrow> string \<Rightarrow> char \<Rightarrow> string list \<Rightarrow> nat \<Rightarrow> (string list \<times> nat) option" where
  "Js_switch sel pattern char tokens i =
     (if sel = CHR '':'' then Some (tokens @ [''(?:''], i + 2)
      else if sel = CHR ''='' then Some (tokens @ [''(?=''], i + 2)
      else if sel = CHR ''!'' then Some (tokens @ [''(?!''], i + 2)
      else if sel = CHR ''<'' then lookbehind_or_named pattern char tokens i
      else Some (tokens @ [string_of_byte char], i))"

definition Js_body ::
  "string \<Rightarrow> string list \<Rightarrow> string \<Rightarrow> nat \<Rightarrow> (string list \<times> string \<times> nat) option" where
  "Js_body pattern tokens cur i =
     do { char \<leftarrow> byte_at pattern i;
          falls (class_block pattern char tokens cur i) (\<lambda>tokens cur.
          falls (escape_block pattern char tokens cur i) (\<lambda>tokens cur.
          falls (brace_block pattern char tokens cur i) (\<lambda>tokens cur.
          falls (suffix_quantifier_block (CHR ''?'') pattern char tokens cur i) (\<lambda>tokens cur.
          falls (group_block Js_switch pattern char tokens cur i) (\<lambda>tokens cur.
          falls (single_block (char = CHR '')'') char tokens cur i) (\<lambda>tokens cur.
          falls (single_block (char = CHR ''|'') char tokens cur i) (\<lambda>tokens cur.
          falls (single_block (char = CHR ''^'' \<or> char = CHR ''$'') char tokens cur i) (\<lambda>tokens cur.
          falls (single_block (char = CHR ''.'') char tokens cur i) (\<lambda>tokens cur.
          Some (tokens, cur @ [char], i)))))))))) }"

definition Js_TokenizeRegex :: "string \<Rightarrow> string list option" where
  "Js_TokenizeRegex pattern =
     do { (tokens, pattern) \<leftarrow> Js_prepass pattern;
          (tokens, cur) \<leftarrow> for_loop Js_body pattern tokens [] 0;
          Some (fst (flush tokens cur)) }"

section \<open>The Python tokenizer (python.go)\<close>

definition is_inline_flag :: "char \<Rightarrow> bool" where
  "is_inline_flag c = (c = CHR ''a'' \<or> c = CHR ''i'' \<or> c = CHR ''L'' \<or> c = CHR ''m''
                        \<or> c = CHR ''s'' \<or> c = CHR ''u'' \<or> c = CHR ''x'')"

text \<open>
  \<^verbatim>\<open>isFlag := true; for i := lo; i < hi; i++ { if s[i] is no flag letter { isFlag = false;
  break } }\<close>, over the indices \<open>[lo..<hi]\<close>.
\<close>

fun flag_scan :: "string \<Rightarrow> nat list \<Rightarrow> bool option" where
  "flag_scan s [] = Some True"
| "flag_scan s (k # ks) =
     do { c \<leftarrow> byte_at s k; if \<not> is_inline_flag c then Some False else flag_scan s ks }"

definition Python_raw_prefix :: "string \<Rightarrow> (string list \<times> string) option" where
  "Python_raw_prefix pattern =
     do { r \<leftarrow> andalso (Some (length pattern > 0))
                  (orelse (byte_is pattern 0 (CHR ''r'')) (byte_is pattern 0 (CHR ''R'')));
          if r then
            do { q \<leftarrow> andalso (Some (length pattern > 1))
                         (orelse (byte_is pattern 1 (CHR 0x22)) (byte_is pattern 1 (CHR 0x27)));
                 if q then
                   do { tok \<leftarrow> slice pattern 0 2;
                        pattern' \<leftarrow> slice_from pattern 2;
                        Some ([tok], pattern') }
                 else Some ([], pattern) }
          else Some ([], pattern) }"

definition Python_inline_flags :: "string list \<Rightarrow> string \<Rightarrow> (string list \<times> string) option" where
  "Python_inline_flags tokens pattern =
     do { g \<leftarrow> andalso (Some (length pattern > 2))
                  (andalso (byte_is pattern 0 (CHR ''('')) (byte_is pattern 1 (CHR ''?'')));
          if g then
            (let flagEnd = IndexByte pattern (CHR '')'') in
             if flagEnd > 2 then
               do { isFlag \<leftarrow> flag_scan pattern [2 ..< nat flagEnd];
                    if isFlag then
                      do { tok \<leftarrow> slice pattern 0 (nat flagEnd + 1);
                           pattern' \<leftarrow> slice_from pattern (nat flagEnd + 1);
                           Some (tokens @ [tok], pattern') }
                    else Some (tokens, pattern) }
             else Some (tokens, pattern))
          else Some (tokens, pattern) }"

definition Python_prepass :: "string \<Rightarrow> (string list \<times> string) option" where
  "Python_prepass pattern =
     do { (tokens, pattern) \<leftarrow> Python_raw_prefix pattern;
          Python_inline_flags tokens pattern }"

text \<open>
  \<^verbatim>\<open>for j := i + 2; j < hexEnd; j++ { if !isHexDigit(pattern[j]) { hexEnd = j; break } }\<close>,
  over the indices \<open>[i + 2..<hexEnd]\<close>; the result is the final \<open>hexEnd\<close>.
\<close>

fun hex_scan :: "string \<Rightarrow> nat \<Rightarrow> nat list \<Rightarrow> nat option" where
  "hex_scan s hexEnd [] = Some hexEnd"
| "hex_scan s hexEnd (j # js) =
     do { c \<leftarrow> byte_at s j; if \<not> isHexDigit c then Some j else hex_scan s hexEnd js }"

definition hex_at :: "string \<Rightarrow> nat \<Rightarrow> bool option" where
  "hex_at s k = map_option isHexDigit (byte_at s k)"

text \<open>
  The escape block of the Python tokenizer. In the branches for \<open>\u\<close>, \<open>\U\<close> and
  \<open>\N{\<close> the token is emitted under an inner \<^verbatim>\<open>if\<close> that has no \<^verbatim>\<open>else\<close>: when
  the inner test fails, the block is left with \<open>currentToken\<close> flushed and nothing emitted.
\<close>

definition Python_escape_block ::
  "string \<Rightarrow> char \<Rightarrow> string list \<Rightarrow> string \<Rightarrow> nat \<Rightarrow> flow option" where
  "Python_escape_block pattern char tokens cur i =
     (if char = CHR 0x5C \<and> i + 1 < length pattern then
        (case flush tokens cur of (tokens, cur) \<Rightarrow>
           do { isx \<leftarrow> andalso (Some (i + 2 < length pattern)) (byte_is pattern (i + 1) (CHR ''x''));
                if isx then
                  do { let hexEnd = i + 4;
                       let hexEnd = (if hexEnd > length pattern then length pattern else hexEnd);
                       hexEnd \<leftarrow> hex_scan pattern hexEnd [i + 2 ..< hexEnd];
                       tok \<leftarrow> slice pattern i hexEnd;
                       Some (Continue (tokens @ [tok]) cur (hexEnd - 1)) }
                else
             do { isu \<leftarrow> andalso (Some (i + 2 < length pattern)) (byte_is pattern (i + 1) (CHR ''u''));
                  if isu then
                    do { ok \<leftarrow> andalso (Some (i + 6 \<le> length pattern))
                                (andalso (hex_at pattern (i + 2)) (andalso (hex_at pattern (i + 3))
                                (andalso (hex_at pattern (i + 4)) (hex_at pattern (i + 5)))));
                         if ok then
                           do { tok \<leftarrow> slice pattern i (i + 6);
                                Some (Continue (tokens @ [tok]) cur (i + 5)) }
                         else Some (Fallthrough tokens cur) }
                  else
             do { isU \<leftarrow> andalso (Some (i + 2 < length pattern)) (byte_is pattern (i + 1) (CHR ''U''));
                  if isU then
                    do { ok \<leftarrow> andalso (Some (i + 10 \<le> length pattern))
                                (andalso (hex_at pattern (i + 2)) (andalso (hex_at pattern (i + 3))
                                (andalso (hex_at pattern (i + 4)) (andalso (hex_at pattern (i + 5))
                                (andalso (hex_at pattern (i + 6)) (andalso (hex_at pattern (i + 7))
                                (andalso (hex_at pattern (i + 8)) (hex_at pattern (i + 9)))))))));
                         if ok then
                           do { tok \<leftarrow> slice pattern i (i + 10);
                                Some (Continue (tokens @ [tok]) cur (i + 9)) }
                         else Some (Fallthrough tokens cur) }
                  else
             do { isN \<leftarrow> andalso (Some (i + 2 < length pattern))
                           (andalso (byte_is pattern (i + 1) (CHR ''N''))
                                    (byte_is pattern (i + 2) (CHR ''{'')));
                  if isN then
                    do { rest \<leftarrow> slice_from pattern (i + 3);
                         let end = IndexByte rest (CHR ''}'');
                         if 0 \<le> end then
                           do { tok \<leftarrow> slice pattern i (i + nat end + 4);
                                Some (Continue (tokens @ [tok]) cur (i + nat end + 3)) }
                         else Some (Fallthrough tokens cur) }
                  else
                    do { tok \<leftarrow> slice pattern i (i + 2);
                         Some (Continue (tokens @ [tok]) cur (i + 1)) } } } } })
      else Some (Fallthrough tokens cur))"

text \<open>\<^verbatim>\<open>for j < len(pattern) && pattern[j] != ')' { j++ }\<close>; the result is the final \<open>j\<close>.\<close>

function scan_to_paren :: "string \<Rightarrow> nat \<Rightarrow> nat option" where
  "scan_to_paren pattern j =
     (if j < length pattern then
        do { b \<leftarrow> byte_isnt pattern j (CHR '')'');
             if b then scan_to_paren pattern (j + 1) else Some j }
      else Some j)"
  by pat_completeness auto
termination
  by (relation "measure (\<lambda>(pattern, j). length pattern - j)") auto

declare scan_to_paren.simps [simp del]

text \<open>
  \<^verbatim>\<open>case 'P'\<close> of the Python tokenizer: \<open>(?P<name>\<close> or the named backreference
  \<open>(?P=name)\<close>; every path that emits no such token ends in
  \<^verbatim>\<open>tokens = append(tokens, string(char))\<close>.
\<close>

definition Python_p_case ::
  "string \<Rightarrow> char \<Rightarrow> string list \<Rightarrow> nat \<Rightarrow> (string list \<times> nat) option" where
  "Python_p_case pattern char tokens i =
     (if i + 3 < length pattern then
        do { lt \<leftarrow> byte_is pattern (i + 3) (CHR ''<'');
             if lt then named_group 4 pattern char tokens i
             else
               do { eq \<leftarrow> byte_is pattern (i + 3) (CHR ''='');
                    if eq then
                      do { j \<leftarrow> scan_to_paren pattern (i + 4);
                           if j < length pattern then
                             do { tok \<leftarrow> slice pattern i (j + 1);
                                  Some (tokens @ [tok], j) }
                           else Some (tokens @ [string_of_byte char], i) }
                    else Some (tokens @ [string_of_byte char], i) } }
      else Some (tokens @ [string_of_byte char], i))"

definition Python_switch ::
  "char \<Rightarrow> string \<Rightarrow> char \<Rightarrow> string list \<Rightarrow> nat \<Rightarrow> (string list \<times> nat) option" where
  "Python_switch sel pattern char tokens i =
     (if sel = CHR '':'' then Some (tokens @ [''(?:''], i + 2)
      else if sel = CHR ''='' then Some (tokens @ [''(?=''], i + 2)
      else if sel = CHR ''!'' then Some (tokens @ [''(?!''], i + 2)
      else if sel = CHR ''<'' then lookbehind_or_named pattern char tokens i
      else if sel = CHR ''P'' then Python_p_case pattern char tokens i
      else Some (tokens @ [string_of_byte char], i))"

definition Python_body ::
  "string \<Rightarrow> string list \<Rightarrow> string \<Rightarrow> nat \<Rightarrow> (string list \<times> string \<times> nat) option" where
  "Python_body pattern tokens cur i =
     do { char \<leftarrow> byte_at pattern i;
          falls (class_block pattern char tokens cur i) (\<lambda>tokens cur.
          falls (Python_escape_block pattern char tokens cur i) (\<lambda>tokens cur.
          falls (brace_block pattern char tokens cur i) (\<lambda>tokens cur.
          falls (suffix_quantifier_block (CHR ''?'') pattern char tokens cur i) (\<lambda>tokens cur.
          falls (group_block Python_switch pattern char tokens cur i) (\<lambda>tokens cur.
          falls (single_block (char = CHR '')'') char tokens cur i) (\<lambda>tokens cur.
          falls (single_block (char = CHR ''|'') char tokens cur i) (\<lambda>tokens cur.
          falls (single_block (char = CHR ''^'' \<or> char = CHR ''$'') char tokens cur i) (\<lambda>tokens cur.
          falls (single_block (char = CHR ''.'') char tokens cur i) (\<lambda>tokens cur.
          Some (tokens, cur @ [char], i)))))))))) }"

definition Python_TokenizeRegex :: "string \<Rightarrow> string list option" where
  "Python_TokenizeRegex pattern =
     do { (tokens, pattern) \<leftarrow> Python_prepass pattern;
          (tokens, cur) \<leftarrow> for_loop Python_body pattern tokens [] 0;
          Some (fst (flush tokens cur)) }"

section \<open>The registry and the feature tables (format.go)\<close>

datatype RegexFormat = GoFormat | PcreFormat | PosixFormat | JsFormat | PythonFormat

definition GetFormat :: "string \<Rightarrow> RegexFormat" where
  "GetFormat formatName =
     (if formatName = ''go'' then GoFormat
      else if formatName = ''pcre'' then PcreFormat
      else if formatName = ''posix'' then PosixFormat
      else if formatName = ''js'' then JsFormat
      else if formatName = ''python'' then PythonFormat
      else GoFormat)"

fun TokenizeRegex :: "RegexFormat \<Rightarrow> string \<Rightarrow> string list option" where
  "TokenizeRegex GoFormat pattern = Go_TokenizeRegex pattern"
| "TokenizeRegex PcreFormat pattern = Pcre_TokenizeRegex pattern"
| "TokenizeRegex PosixFormat pattern = Posix_TokenizeRegex pattern"
| "TokenizeRegex JsFormat pattern = Js_TokenizeRegex pattern"
| "TokenizeRegex PythonFormat pattern = Python_TokenizeRegex pattern"

text \<open>
  Each \<^verbatim>\<open>HasFeature\<close> builds a map literal over the ten feature constants and returns
  \<^verbatim>\<open>supportedFeatures[feature]\<close>; a key that is not in a Go map reads as \<open>false\<close>.
\<close>

definition FeatureLookahead :: string where "FeatureLookahead = ''lookahead''"
definition FeatureLookbehind :: string where "FeatureLookbehind = ''lookbehind''"
definition FeatureNamedGroup :: string where "FeatureNamedGroup = ''named_group''"
definition FeatureAtomicGroup :: string where "FeatureAtomicGroup = ''atomic_group''"
definition FeatureConditional :: string where "FeatureConditional = ''conditional''"
definition FeaturePossessive :: string where "FeaturePossessive = ''possessive''"
definition FeatureUnicodeClass :: string where "FeatureUnicodeClass = ''unicode_class''"
definition FeatureRecursion :: string where "FeatureRecursion = ''recursion''"
definition FeatureBackreference :: string where "FeatureBackreference = ''backreference''"
definition FeatureNamedBackref :: string where "FeatureNamedBackref = ''named_backref''"

fun supportedFeatures :: "RegexFormat \<Rightarrow> (string \<times> bool) list" where
  "supportedFeatures GoFormat =
     [(FeatureLookahead, True), (FeatureLookbehind, False), (FeatureNamedGroup, True),
      (FeatureAtomicGroup, False), (FeatureConditional, False), (FeaturePossessive, False),
      (FeatureUnicodeClass, True), (FeatureRecursion, False), (FeatureBackreference, True),
      (FeatureNamedBackref, True)]"
| "supportedFeatures PcreFormat =
     [(FeatureLookahead, True), (FeatureLookbehind, True), (FeatureNamedGroup, True),
      (FeatureAtomicGroup, True), (FeatureConditional, True), (FeaturePossessive, True),
      (FeatureUnicodeClass, True), (FeatureRecursion, True), (FeatureBackreference, True),
      (FeatureNamedBackref, True)]"
| "supportedFeatures PosixFormat =
     [(FeatureLookahead, False), (FeatureLookbehind, False), (FeatureNamedGroup, False),
      (FeatureAtomicGroup, False), (FeatureConditional, False), (FeaturePossessive, False),
      (FeatureUnicodeClass, False), (FeatureRecursion, False), (FeatureBackreference, True),
      (FeatureNamedBackref, False)]"
| "supportedFeatures JsFormat =
     [(FeatureLookahead, True), (FeatureLookbehind, True), (FeatureNamedGroup, True),
      (FeatureAtomicGroup, False), (FeatureConditional, False), (FeaturePossessive, False),
      (FeatureUnicodeClass, True), (FeatureRecursion, False), (FeatureBackreference, True),
      (FeatureNamedBackref, True)]"
| "supportedFeatures PythonFormat =
     [(FeatureLookahead, True), (FeatureLookbehind, True), (FeatureNamedGroup, True),
      (FeatureAtomicGroup, False), (FeatureConditional, False), (FeaturePossessive, False),
      (FeatureUnicodeClass, True), (FeatureRecursion, False), (FeatureBackreference, True),
      (FeatureNamedBackref, True)]"

definition HasFeature :: "RegexFormat \<Rightarrow> string \<Rightarrow> bool" where
  "HasFeature fmt feature =
     (case map_of (supportedFeatures fmt) feature of None \<Rightarrow> False | Some b \<Rightarrow> b)"

section \<open>Explaining tokens (js.go, python.go)\<close>

text \<open>
  \<^verbatim>\<open>for _, flag := range flags\<close> decodes the string as UTF-8, one rune per step; bytes
  that start no valid encoding yield the rune U+FFFD and are passed one at a time. A rune is
  kept here as its UTF-8 text, which is what \<^verbatim>\<open>%c\<close> prints for it. \<open>rune_width c s\<close>
  is the length of the encoding that starts with byte \<open>c\<close> followed by \<open>s\<close>, or \<open>0\<close>
  when there is none.
\<close>

definition in_range :: "nat \<Rightarrow> nat \<Rightarrow> char \<Rightarrow> bool" where
  "in_range lo hi c = (lo \<le> of_char c \<and> (of_char c :: nat) \<le> hi)"

fun follows :: "(nat \<times> nat) list \<Rightarrow> string \<Rightarrow> bool" where
  "follows [] s = True"
| "follows ((lo, hi) # rs) [] = False"
| "follows ((lo, hi) # rs) (c # s) = (in_range lo hi c \<and> follows rs s)"

definition rune_width :: "char \<Rightarrow> string \<Rightarrow> nat" where
  "rune_width c s =
     (let b = (of_char c :: nat); t = (0x80, 0xBF)
      in if b < 0x80 then 1
         else if 0xC2 \<le> b \<and> b \<le> 0xDF then (if follows [t] s then 2 else 0)
         else if b = 0xE0 then (if follows [(0xA0, 0xBF), t] s then 3 else 0)
         else if b = 0xED then (if follows [(0x80, 0x9F), t] s then 3 else 0)
         else if 0xE1 \<le> b \<and> b \<le> 0xEF then (if follows [t, t] s then 3 else 0)
         else if b = 0xF0 then (if follows [(0x90, 0xBF), t, t] s then 4 else 0)
         else if 0xF1 \<le> b \<and> b \<le> 0xF3 then (if follows [t, t, t] s then 4 else 0)
         else if b = 0xF4 then (if follows [(0x80, 0x8F), t, t] s then 4 else 0)
         else 0)"

definition RuneError :: string where
  "RuneError = [CHR 0xEF, CHR 0xBF, CHR 0xBD]"

function range_runes :: "string \<Rightarrow> string list" where
  "range_runes [] = []"
| "range_runes (c # s) =
     (let w = rune_width c s
      in if w = 0 then RuneError # range_runes s
         else (c # take (w - 1) s) # range_runes (drop (w - 1) s))"
  by pat_completeness auto
termination
  by (relation "measure length") auto

definition quote :: "string \<Rightarrow> string" where
  "quote s = CHR 0x27 # s @ [CHR 0x27]"

fun SplitByte :: "string \<Rightarrow> char \<Rightarrow> string list" where
  "SplitByte [] c = [[]]"
| "SplitByte (x # xs) c =
     (if x = c then [] # SplitByte xs c
      else (case SplitByte xs c of [] \<Rightarrow> [[x]] | y # ys \<Rightarrow> (x # y) # ys))"

text \<open>
  The cases \<^verbatim>\<open>token == "..."\<close> of \<^verbatim>\<open>ExplainToken\<close>, the same list in js.go and
  python.go, and the cases for character classes, brace quantifiers and literals, the same
  text in both.
\<close>

definition fixed_explanations :: "(string \<times> string) list" where
  "fixed_explanations =
     [(''^'', ''Matches the start of a line''),
      (''$'', ''Matches the end of a line''),
      (''.'', ''Matches any single character except newline''),
      (''*'', ''Matches 0 or more of the preceding element (greedy)''),
      (''+'', ''Matches 1 or more of the preceding element (greedy)''),
      (''?'', ''Matches 0 or 1 of the preceding element (greedy)''),
      (''*?'', ''Matches 0 or more of the preceding element (non-greedy)''),
      (''+?'', ''Matches 1 or more of the preceding element (non-greedy)''),
      (''??'', ''Matches 0 or 1 of the preceding element (non-greedy)''),
      (''|'', ''Acts as an OR operator - matches the expression before or after the |''),
      (''('', ''Start of a capturing group''),
      ('')'', ''End of a capturing group''),
      (''(?:'', ''Start of a non-capturing group - groups the expression but doesn't create a capture group''),
      (''(?='', ''Start of a positive lookahead - matches if the pattern inside matches, but doesn't consume characters''),
      (''(?!'', ''Start of a negative lookahead - matches if the pattern inside doesn't match, but doesn't consume characters''),
      (''(?<='', ''Start of a positive lookbehind - matches if the pattern inside matches immediately before current position''),
      (''(?<!'', ''Start of a negative lookbehind - matches if the pattern inside doesn't match immediately before current position'')]"

definition explain_class :: "string \<Rightarrow> string option" where
  "explain_class token =
     do { neg \<leftarrow> andalso (Some (length token > 2)) (byte_is token 1 (CHR ''^''));
          if neg then
            do { members \<leftarrow> slice token 2 (length token - 1);
                 Some (''Matches any character NOT in the set: '' @ members) }
          else
            do { members \<leftarrow> slice token 1 (length token - 1);
                 Some (''Matches any character in the set: '' @ members) } }"

definition explain_braces :: "string \<Rightarrow> string option" where
  "explain_braces token =
     do { content \<leftarrow> slice token 1 (length token - 1);
          let exactly = ''Matches exactly '' @ content @ '' occurrences of the preceding element'';
          if Contains content '','' then
            (case SplitByte content (CHR '','') of
               [lo, hi] \<Rightarrow>
                 if hi = [] then
                   Some (''Matches at least '' @ lo @ '' occurrences of the preceding element'')
                 else
                   Some (''Matches between '' @ lo @ '' and '' @ hi
                           @ '' occurrences of the preceding element'')
             | _ \<Rightarrow> Some exactly)
          else Some exactly }"

definition explain_literal :: "string \<Rightarrow> string" where
  "explain_literal token =
     (if length token = 1 then ''Matches the character '' @ quote token @ '' literally''
      else ''Matches the string '' @ quote token @ '' literally'')"

definition explainJsFlag :: "string \<Rightarrow> string" where
  "explainJsFlag flag =
     (if flag = ''g'' then ''g: Global search - find all matches rather than stopping after the first match''
      else if flag = ''i'' then ''i: Case-insensitive search''
      else if flag = ''m'' then ''m: Multi-line search - ^ and $ match start/end of each line''
      else if flag = ''s'' then ''s: Dot-all mode - the dot (.) matches newlines''
      else if flag = ''u'' then ''u: Unicode mode - treat pattern as a sequence of Unicode code points''
      else if flag = ''y'' then ''y: Sticky mode - matches only from the index indicated by the lastIndex property''
      else if flag = ''d'' then ''d: Generate indices for substring matches''
      else flag @ '': Unknown flag'')"

definition explainJsFlags :: "string \<Rightarrow> string" where
  "explainJsFlags flags =
     (if flags = [] then ''No flags specified''
      else ''Flags: '' @ Join (map explainJsFlag (range_runes flags)) '', '')"

definition is_digit_1_9 :: "char \<Rightarrow> bool" where
  "is_digit_1_9 c = (c \<in> set ''123456789'')"

definition explainJsEscapeSequence :: "string \<Rightarrow> string option" where
  "explainJsEscapeSequence sequence =
     (if length sequence < 2 then Some ''Invalid escape sequence''
      else
        do { c \<leftarrow> byte_at sequence 1;
             if c = CHR ''d'' then Some ''Matches any digit (0-9)''
             else if c = CHR ''D'' then Some ''Matches any non-digit character''
             else if c = CHR ''w'' then Some ''Matches any word character (alphanumeric plus underscore)''
             else if c = CHR ''W'' then Some ''Matches any non-word character''
             else if c = CHR ''s'' then Some ''Matches any whitespace character (space, tab, newline, etc.)''
             else if c = CHR ''S'' then Some ''Matches any non-whitespace character''
             else if c = CHR ''b'' then Some ''Matches a word boundary''
             else if c = CHR ''B'' then Some ''Matches a non-word boundary''
             else if c = CHR ''n'' then Some ''Matches a newline character''
             else if c = CHR ''t'' then Some ''Matches a tab character''
             else if c = CHR ''r'' then Some ''Matches a carriage return character''
             else if c = CHR ''f'' then Some ''Matches a form feed character''
             else if c = CHR ''v'' then Some ''Matches a vertical tab character''
             else if c = CHR ''0'' then Some ''Matches a null character''
             else if c = CHR ''k'' then
               do { b \<leftarrow> andalso (Some (length sequence > 2)) (byte_is sequence 2 (CHR ''<''));
                    if b then
                      do { rest \<leftarrow> slice_from sequence 3;
                           let end = IndexByte rest (CHR ''>'');
                           if 0 \<le> end then
                             do { name \<leftarrow> slice sequence 3 (3 + nat end);
                                  Some (''Backreference to the named group '' @ quote name) }
                           else Some ''Invalid named backreference'' }
                    else Some ''Invalid named backreference'' }
             else if is_digit_1_9 c then
               Some (''Backreference to capturing group '' @ string_of_byte c)
             else if c = CHR ''p'' \<or> c = CHR ''P'' then
               do { b \<leftarrow> andalso (Some (length sequence > 2)) (byte_is sequence 2 (CHR ''{''));
                    if b then
                      do { rest \<leftarrow> slice_from sequence 3;
                           let end = IndexByte rest (CHR ''}'');
                           if 0 \<le> end then
                             do { name \<leftarrow> slice sequence 3 (3 + nat end);
                                  positive \<leftarrow> byte_is sequence 1 (CHR ''p'');
                                  if positive then
                                    Some (''Matches a character with the unicode property ''
                                            @ quote name @ '' (requires u flag)'')
                                  else
                                    Some (''Matches a character without the unicode property ''
                                            @ quote name @ '' (requires u flag)'') }
                           else Some ''Invalid unicode property'' }
                    else Some ''Invalid unicode property'' }
             else if c = CHR ''u'' then
               do { ok \<leftarrow> andalso (Some (length sequence \<ge> 6))
                             (andalso (hex_at sequence 2) (andalso (hex_at sequence 3)
                             (andalso (hex_at sequence 4) (hex_at sequence 5))));
                    if ok then
                      do { digits \<leftarrow> slice sequence 2 6;
                           Some (''Matches the Unicode character U+'' @ digits) }
                    else Some ''Invalid Unicode escape sequence'' }
             else if c = CHR ''x'' then
               do { ok \<leftarrow> andalso (Some (length sequence \<ge> 4))
                             (andalso (hex_at sequence 2) (hex_at sequence 3));
                    if ok then
                      do { digits \<leftarrow> slice sequence 2 4;
                           Some (''Matches the character with hex code '' @ digits) }
                    else Some ''Invalid hexadecimal escape sequence'' }
             else Some (''Matches the character '' @ quote (string_of_byte c) @ '' literally'') })"

definition Js_ExplainToken :: "string \<Rightarrow> string option" where
  "Js_ExplainToken token =
     (if HasPrefix token ''/'' then
        do { flags \<leftarrow> slice_from token 1; Some (explainJsFlags flags) }
      else
        (case map_of fixed_explanations token of
           Some text \<Rightarrow> Some text
         | None \<Rightarrow>
             if HasPrefix token ''(?<'' \<and> HasSuffix token ''>'' \<and> \<not> Contains token ''<?''
                  \<and> \<not> Contains token ''<!'' then
               do { name \<leftarrow> slice token 3 (length token - 1);
                    Some (''Start of a named capturing group called '' @ quote name) }
             else if HasPrefix token ''['' \<and> HasSuffix token '']'' then explain_class token
             else if HasPrefix token [CHR 0x5C] then explainJsEscapeSequence token
             else if HasPrefix token ''{'' \<and> HasSuffix token ''}'' then explain_braces token
             else Some (explain_literal token)))"

definition explainPythonFlag :: "string \<Rightarrow> string" where
  "explainPythonFlag flag =
     (if flag = ''a'' then ''a: ASCII-only matching''
      else if flag = ''i'' then ''i: Case-insensitive matching''
      else if flag = ''L'' then ''L: Locale-dependent matching''
      else if flag = ''m'' then ''m: Multi-line matching - ^ and $ match at line breaks''
      else if flag = ''s'' then ''s: Dot matches all - the dot (.) matches any character including newline''
      else if flag = ''u'' then ''u: Unicode matching''
      else if flag = ''x'' then ''x: Verbose - whitespace and comments in pattern are ignored''
      else flag @ '': Unknown flag'')"

definition explainPythonFlags :: "string \<Rightarrow> string" where
  "explainPythonFlags flags =
     (if flags = [] then ''No flags specified''
      else ''Flags: '' @ Join (map explainPythonFlag (range_runes flags)) '', '')"

definition explainPythonEscapeSequence :: "string \<Rightarrow> string option" where
  "explainPythonEscapeSequence sequence =
     (if length sequence < 2 then Some ''Invalid escape sequence''
      else
        do { c \<leftarrow> byte_at sequence 1;
             if c = CHR ''A'' then Some ''Matches only at the start of the string''
             else if c = CHR ''Z'' then Some ''Matches only at the end of the string''
             else if c = CHR ''d'' then Some ''Matches any decimal digit (0-9)''
             else if c = CHR ''D'' then Some ''Matches any non-digit character''
             else if c = CHR ''s'' then Some ''Matches any whitespace character (space, tab, newline, etc.)''
             else if c = CHR ''S'' then Some ''Matches any non-whitespace character''
             else if c = CHR ''w'' then Some ''Matches any alphanumeric character (including underscore)''
             else if c = CHR ''W'' then Some ''Matches any non-alphanumeric character''
             else if c = CHR ''b'' then Some ''Matches a word boundary''
             else if c = CHR ''B'' then Some ''Matches a non-word boundary''
             else if c = CHR ''n'' then Some ''Matches a newline character''
             else if c = CHR ''t'' then Some ''Matches a tab character''
             else if c = CHR ''r'' then Some ''Matches a carriage return character''
             else if c = CHR ''f'' then Some ''Matches a form feed character''
             else if c = CHR ''v'' then Some ''Matches a vertical tab character''
             else if c = CHR ''a'' then Some ''Matches a bell (BEL) character''
             else if is_digit_1_9 c then
               Some (''Backreference to capturing group '' @ string_of_byte c)
             else if c = CHR ''g'' then
               do { b \<leftarrow> andalso (Some (length sequence > 3)) (byte_is sequence 2 (CHR ''<''));
                    if b then
                      do { rest \<leftarrow> slice_from sequence 3;
                           let end = IndexByte rest (CHR ''>'');
                           if 0 \<le> end then
                             do { name \<leftarrow> slice sequence 3 (3 + nat end);
                                  Some (''Backreference to the named group '' @ quote name) }
                           else Some ''Invalid named backreference'' }
                    else Some ''Invalid named backreference'' }
             else if c = CHR ''x'' then
               do { ok \<leftarrow> andalso (Some (length sequence \<ge> 4))
                             (andalso (hex_at sequence 2) (hex_at sequence 3));
                    if ok then
                      do { digits \<leftarrow> slice sequence 2 4;
                           Some (''Matches the character with hex code '' @ digits) }
                    else Some ''Invalid hexadecimal escape sequence'' }
             else if c = CHR ''u'' then
               do { ok \<leftarrow> andalso (Some (length sequence \<ge> 6))
                             (andalso (hex_at sequence 2) (andalso (hex_at sequence 3)
                             (andalso (hex_at sequence 4) (hex_at sequence 5))));
                    if ok then
                      do { digits \<leftarrow> slice sequence 2 6;
                           Some (''Matches the Unicode character U+'' @ digits) }
                    else Some ''Invalid Unicode escape sequence'' }
             else if c = CHR ''U'' then
               do { ok \<leftarrow> andalso (Some (length sequence \<ge> 10))
                             (andalso (hex_at sequence 2) (andalso (hex_at sequence 3)
                             (andalso (hex_at sequence 4) (andalso (hex_at sequence 5)
                             (andalso (hex_at sequence 6) (andalso (hex_at sequence 7)
                             (andalso (hex_at sequence 8) (hex_at sequence 9))))))));
                    if ok then
                      do { digits \<leftarrow> slice sequence 2 10;
                           Some (''Matches the Unicode character U+'' @ digits) }
                    else Some ''Invalid extended Unicode escape sequence'' }
             else if c = CHR ''N'' then
               do { b \<leftarrow> andalso (Some (length sequence > 3)) (byte_is sequence 2 (CHR ''{''));
                    if b then
                      do { rest \<leftarrow> slice_from sequence 2;
                           let end = IndexByte rest (CHR ''}'');
                           if 0 < end then
                             do { name \<leftarrow> slice sequence 3 (2 + nat end);
                                  Some (''Matches the Unicode character named '' @ quote name) }
                           else Some ''Invalid Unicode name escape sequence'' }
                    else Some ''Invalid Unicode name escape sequence'' }
             else Some (''Matches the character '' @ quote (string_of_byte c) @ '' literally'') })"

text \<open>
  In \<^verbatim>\<open>(*PythonFormat).ExplainToken\<close> the second case of the switch returns only when
  the token is an inline-flags group; otherwise the case ends, Go leaves the switch, and the
  function returns by its last statement, the \<open>Unknown token\<close> text.
\<close>

definition Python_ExplainToken :: "string \<Rightarrow> string option" where
  "Python_ExplainToken token =
     (if HasPrefix token [CHR ''r'', CHR 0x27] \<or> HasPrefix token [CHR ''r'', CHR 0x22]
           \<or> HasPrefix token [CHR ''R'', CHR 0x27] \<or> HasPrefix token [CHR ''R'', CHR 0x22] then
        Some ''Raw string marker - backslashes are treated literally''
      else if HasPrefix token ''(?'' \<and> HasSuffix token '')'' \<and> length token > 3 then
        do { isFlag \<leftarrow> flag_scan token [2 ..< length token - 1];
             if isFlag then
               do { flags \<leftarrow> slice token 2 (length token - 1);
                    Some (explainPythonFlags flags) }
             else Some (''Unknown token: '' @ token) }
      else
        (case map_of fixed_explanations token of
           Some text \<Rightarrow> Some text
         | None \<Rightarrow>
             if HasPrefix token ''(?P<'' \<and> HasSuffix token ''>'' then
               do { name \<leftarrow> slice token 4 (length token - 1);
                    Some (''Start of a named capturing group called '' @ quote name) }
             else if HasPrefix token ''(?P='' \<and> HasSuffix token '')'' then
               do { name \<leftarrow> slice token 4 (length token - 1);
                    Some (''Backreference to the named group '' @ quote name) }
             else if HasPrefix token ''['' \<and> HasSuffix token '']'' then explain_class token
             else if HasPrefix token [CHR 0x5C] then explainPythonEscapeSequence token
             else if HasPrefix token ''{'' \<and> HasSuffix token ''}'' then explain_braces token
             else Some (explain_literal token)))"

section \<open>What a block, a loop body and a group switch guarantee\<close>

text \<open>
  \<open>extends tokens cur t c seg\<close>: the state \<open>(t, c)\<close> comes from \<open>(tokens, cur)\<close> by
  appending non-empty tokens, and the text held by the new tokens and the new
  \<open>currentToken\<close> is the old \<open>currentToken\<close> followed by \<open>seg\<close>.
\<close>

definition extends :: "string list \<Rightarrow> string \<Rightarrow> string list \<Rightarrow> string \<Rightarrow> string \<Rightarrow> bool" where
  "extends tokens cur t c seg \<longleftrightarrow> (\<exists>ts. t = tokens @ ts \<and> [] \<notin> set ts \<and> concat ts @ c = cur @ seg)"

definition advances :: "string \<Rightarrow> string list \<Rightarrow> string \<Rightarrow> nat \<Rightarrow> flow \<Rightarrow> bool" where
  "advances p tokens cur i fl =
     (case fl of
        Continue t c j \<Rightarrow> i \<le> j \<and> j < length p \<and> extends tokens cur t c (take (j + 1 - i) (drop i p))
      | Fallthrough t c \<Rightarrow> extends tokens cur t c [])"

definition block_ok :: "string \<Rightarrow> string list \<Rightarrow> string \<Rightarrow> nat \<Rightarrow> flow option \<Rightarrow> bool" where
  "block_ok p tokens cur i r \<longleftrightarrow> (\<exists>fl. r = Some fl \<and> advances p tokens cur i fl)"

definition body_ok ::
  "string \<Rightarrow> string list \<Rightarrow> string \<Rightarrow> nat \<Rightarrow> (string list \<times> string \<times> nat) option \<Rightarrow> bool" where
  "body_ok p tokens cur i r \<longleftrightarrow>
     (\<exists>t c j. r = Some (t, c, j) \<and> i \<le> j \<and> j < length p
              \<and> extends tokens cur t c (take (j + 1 - i) (drop i p)))"

definition switch_ok :: "string \<Rightarrow> string list \<Rightarrow> nat \<Rightarrow> (string list \<times> nat) option \<Rightarrow> bool" where
  "switch_ok p tokens i r \<longleftrightarrow>
     (\<exists>j. r = Some (tokens @ [take (j + 1 - i) (drop i p)], j) \<and> i \<le> j \<and> j < length p)"

text \<open>
  The test of the loop in \<^verbatim>\<open>FindClosingBracket\<close> at index \<open>j\<close>:
  \<^verbatim>\<open>pattern[j] == ']' && (j == start+1 || pattern[j-1] != '\\')\<close>.
\<close>

definition accepts_bracket :: "string \<Rightarrow> nat \<Rightarrow> nat \<Rightarrow> bool" where
  "accepts_bracket p start j \<longleftrightarrow>
     j < length p \<and> p ! j = CHR '']'' \<and> (j = start + 1 \<or> p ! (j - 1) \<noteq> CHR 0x5C)"

text \<open>\<open>n\<close> hex digits stand in \<open>p\<close> from index \<open>k\<close> on.\<close>

definition hex_digits_at :: "string \<Rightarrow> nat \<Rightarrow> nat \<Rightarrow> bool" where
  "hex_digits_at p k n \<longleftrightarrow> k + n \<le> length p \<and> list_all isHexDigit (take n (drop k p))"

text \<open>
  A byte that no block of the Python loop tests for: it reaches the last statement of the
  body, \<^verbatim>\<open>currentToken.WriteByte(char)\<close>, wherever it stands.
\<close>

definition plain :: "char \<Rightarrow> bool" where
  "plain c \<longleftrightarrow> c \<notin> set ''[{*+?()|^$.'' \<and> c \<noteq> CHR 0x5C"

section \<open>Each iteration returns and accounts for the bytes it consumes\<close>

subsection \<open>Checked reads under their guards\<close>

lemma byte_at_Some [simp]: "k < length s \<Longrightarrow> byte_at s k = Some (s ! k)"
  by (simp add: byte_at_def)

lemma byte_is_Some [simp]: "k < length s \<Longrightarrow> byte_is s k c = Some (s ! k = c)"
  by (simp add: byte_is_def)

lemma byte_isnt_Some [simp]: "k < length s \<Longrightarrow> byte_isnt s k c = Some (s ! k \<noteq> c)"
  by (simp add: byte_isnt_def)

lemma hex_at_Some [simp]: "k < length s \<Longrightarrow> hex_at s k = Some (isHexDigit (s ! k))"
  by (simp add: hex_at_def)

lemma andalso_Some [simp]: "andalso (Some a) b = (if a then b else Some False)"
  by (simp add: andalso_def)

lemma orelse_Some [simp]: "orelse (Some a) b = (if a then Some True else b)"
  by (simp add: orelse_def)

lemma slice_Some [simp]: "a \<le> b \<Longrightarrow> b \<le> length s \<Longrightarrow> slice s a b = Some (take (b - a) (drop a s))"
  by (simp add: slice_def)

lemma slice_from_Some [simp]: "a \<le> length s \<Longrightarrow> slice_from s a = Some (drop a s)"
  by (simp add: slice_from_def)

subsection \<open>Extending the token list\<close>

lemma extends_refl: "extends tokens cur tokens cur []"
  by (simp add: extends_def)

lemma extends_trans:
  assumes "extends tokens cur t c s1" and "extends t c t' c' s2"
  shows "extends tokens cur t' c' (s1 @ s2)"
proof -
  from assms(1) obtain ts where ts: "t = tokens @ ts" "[] \<notin> set ts" "concat ts @ c = cur @ s1"
    by (auto simp: extends_def)
  from assms(2) obtain us where us: "t' = t @ us" "[] \<notin> set us" "concat us @ c' = c @ s2"
    by (auto simp: extends_def)
  have "concat (ts @ us) @ c' = concat ts @ (c @ s2)"
    using us(3) by simp
  also have "\<dots> = cur @ s1 @ s2"
    using ts(3) by (metis append_assoc)
  finally have "concat (ts @ us) @ c' = cur @ s1 @ s2" .
  moreover have "t' = tokens @ (ts @ us)" using ts(1) us(1) by simp
  moreover have "[] \<notin> set (ts @ us)" using ts(2) us(2) by simp
  ultimately show ?thesis unfolding extends_def by blast
qed

lemma extends_flush: "extends tokens cur (fst (flush tokens cur)) (snd (flush tokens cur)) []"
  by (auto simp: extends_def flush_def)

lemma flush_cur: "snd (flush tokens cur) = []"
  by (simp add: flush_def)

lemma extends_emit: "tok \<noteq> [] \<Longrightarrow> extends tokens [] (tokens @ [tok]) [] tok"
  by (simp add: extends_def)

lemma extends_flush_emit:
  assumes "flush tokens cur = (t, c)" and "tok \<noteq> []"
  shows "extends tokens cur (t @ [tok]) c tok"
proof -
  have c: "c = []" using assms(1) flush_cur [of tokens cur] by simp
  have "extends tokens cur t c []" using assms(1) extends_flush [of tokens cur] by simp
  moreover have "extends t c (t @ [tok]) c tok" using c assms(2) by (simp add: extends_emit)
  ultimately show ?thesis using extends_trans by fastforce
qed

lemma extends_flush_only:
  assumes "flush tokens cur = (t, c)"
  shows "extends tokens cur t c []"
  using assms extends_flush [of tokens cur] by simp

text \<open>A block that ends the iteration at index \<open>j\<close> after emitting the source span as one token.\<close>

lemma continue_span_ok:
  assumes "flush tokens cur = (t, c)" and "i < length p" and "i \<le> j" and "j < length p"
  shows "advances p tokens cur i (Continue (t @ [take (j + 1 - i) (drop i p)]) c j)"
  using assms by (simp add: advances_def extends_flush_emit)

lemma fallthrough_flushed_ok:
  assumes "flush tokens cur = (t, c)"
  shows "advances p tokens cur i (Fallthrough t c)"
  using assms by (simp add: advances_def extends_flush_only)

lemma fallthrough_same_ok: "advances p tokens cur i (Fallthrough tokens cur)"
  by (simp add: advances_def extends_refl)

subsection \<open>The scans stay inside the pattern\<close>

lemma FindClosingBracket_from_range:
  "\<exists>r. FindClosingBracket_from p s i = Some r \<and> (r = - 1 \<or> (int i \<le> r \<and> r < int (length p)))"
proof (induction p s i rule: FindClosingBracket_from.induct)
  case (1 pattern start i)
  show ?case
  proof (cases "i < length pattern")
    case False
    then show ?thesis by (simp add: FindClosingBracket_from.simps [of pattern start i])
  next
    case True
    show ?thesis
    proof (cases "andalso (byte_is pattern i (CHR '']''))
                    (orelse (Some (i = start + 1)) (byte_isnt pattern (i - 1) (CHR 0x5C))) = Some True")
      case t: True
      then show ?thesis using True by (simp add: FindClosingBracket_from.simps [of pattern start i])
    next
      case f: False
      have "andalso (byte_is pattern i (CHR '']''))
                    (orelse (Some (i = start + 1)) (byte_isnt pattern (i - 1) (CHR 0x5C))) = Some False"
        using f True by (auto split: if_splits)
      then show ?thesis using True "1.IH" [of False]
        by (fastforce simp add: FindClosingBracket_from.simps [of pattern start i])
    qed
  qed
qed

lemma FindClosingCurlyBrace_from_range:
  "\<exists>r. FindClosingCurlyBrace_from p i = Some r \<and> (r = - 1 \<or> (int i \<le> r \<and> r < int (length p)))"
proof (induction p i rule: FindClosingCurlyBrace_from.induct)
  case (1 pattern i)
  show ?case
  proof (cases "i < length pattern")
    case False
    then show ?thesis by (simp add: FindClosingCurlyBrace_from.simps [of pattern i])
  next
    case True
    show ?thesis
    proof (cases "andalso (byte_is pattern i (CHR ''}'')) (byte_isnt pattern (i - 1) (CHR 0x5C)) = Some True")
      case t: True
      then show ?thesis using True by (simp add: FindClosingCurlyBrace_from.simps [of pattern i])
    next
      case f: False
      have "andalso (byte_is pattern i (CHR ''}'')) (byte_isnt pattern (i - 1) (CHR 0x5C)) = Some False"
        using f True by (auto split: if_splits)
      then show ?thesis using True "1.IH" [of False]
        by (fastforce simp add: FindClosingCurlyBrace_from.simps [of pattern i])
    qed
  qed
qed

lemma FindClosingBracket_range:
  "\<exists>r. FindClosingBracket p i = Some r \<and> (r = - 1 \<or> (int i < r \<and> r < int (length p)))"
  using FindClosingBracket_from_range [of p i "i + 1"] unfolding FindClosingBracket_def
  by force

subsection \<open>The blocks shared by the tokenizers\<close>

lemma bracket_token_ok:
  assumes "flush tokens0 cur0 = (tokens, cur)" and "i < length p"
  shows "block_ok p tokens0 cur0 i (bracket_token p tokens cur i)"
proof -
  obtain r where r: "FindClosingBracket p i = Some r" "r = - 1 \<or> (int i < r \<and> r < int (length p))"
    using FindClosingBracket_range [of p i] by blast
  show ?thesis
  proof (cases "r > int i")
    case True
    then have b: "i \<le> nat r" "nat r < length p" using r(2) by auto
    then have s: "slice p i (nat r + 1) = Some (take (nat r + 1 - i) (drop i p))" by simp
    have "bracket_token p tokens cur i = Some (Continue (tokens @ [take (nat r + 1 - i) (drop i p)]) cur (nat r))"
      unfolding bracket_token_def using r(1) True s by simp
    then show ?thesis using continue_span_ok [OF assms(1) assms(2) b]
      by (simp add: block_ok_def)
  next
    case False
    then have "bracket_token p tokens cur i = Some (Fallthrough tokens cur)"
      unfolding bracket_token_def using r(1) by simp
    then show ?thesis using fallthrough_flushed_ok [OF assms(1)]
      by (simp add: block_ok_def)
  qed
qed

lemma class_block_ok:
  assumes "i < length p"
  shows "block_ok p tokens cur i (class_block p char tokens cur i)"
proof (cases "char = CHR ''[''")
  case True
  obtain t c where f: "flush tokens cur = (t, c)" by (cases "flush tokens cur")
  then show ?thesis using True bracket_token_ok [OF f assms] by (simp add: class_block_def)
next
  case False
  then show ?thesis by (simp add: class_block_def block_ok_def fallthrough_same_ok)
qed

lemma span1: "i < length p \<Longrightarrow> take (Suc 0) (drop i p) = [p ! i]"
  by (simp add: take_Suc_conv_app_nth)

lemma span2: "i + 1 < length p \<Longrightarrow> take 2 (drop i p) = [p ! i, p ! (i + 1)]"
  by (simp add: numeral_2_eq_2 take_Suc_conv_app_nth)

lemma span3: "i + 2 < length p \<Longrightarrow> take 3 (drop i p) = [p ! i, p ! (i + 1), p ! (i + 2)]"
  by (simp add: numeral_3_eq_3 take_Suc_conv_app_nth)

lemma span4:
  "i + 3 < length p \<Longrightarrow> take 4 (drop i p) = [p ! i, p ! (i + 1), p ! (i + 2), p ! (i + 3)]"
proof -
  assume a: "i + 3 < length p"
  have "take (Suc 3) (drop i p) = take 3 (drop i p) @ [drop i p ! 3]"
    using a by (intro take_Suc_conv_app_nth) simp
  then show ?thesis using a span3 [of i p] by (simp add: add.commute)
qed

lemma string_of_byte_quantifier: "is_quantifier c \<Longrightarrow> string_of_byte c = [c]"
  by (auto simp: is_quantifier_def string_of_byte_def)

lemma string_of_byte_meta:
  "c = CHR ''('' \<or> c = CHR '')'' \<or> c = CHR ''|'' \<or> c = CHR ''^'' \<or> c = CHR ''$'' \<or> c = CHR ''.''
     \<Longrightarrow> string_of_byte c = [c]"
  by (auto simp: string_of_byte_def)

lemma escape_block_ok:
  assumes "i < length p"
  shows "block_ok p tokens cur i (escape_block p char tokens cur i)"
proof (cases "char = CHR 0x5C \<and> i + 1 < length p")
  case True
  obtain t c where f: "flush tokens cur = (t, c)" by (cases "flush tokens cur")
  have b: "i \<le> i + 1" "i + 1 < length p" using True by auto
  have "escape_block p char tokens cur i = Some (Continue (t @ [take (i + 1 + 1 - i) (drop i p)]) c (i + 1))"
    using True f by (simp add: escape_block_def)
  then show ?thesis using continue_span_ok [OF f assms b] by (simp add: block_ok_def)
next
  case False
  then have "escape_block p char tokens cur i = Some (Fallthrough tokens cur)"
    by (auto simp add: escape_block_def)
  then show ?thesis by (simp add: block_ok_def fallthrough_same_ok)
qed

lemma FindClosingCurlyBrace_range:
  "\<exists>r. FindClosingCurlyBrace p i = Some r \<and> (r = - 1 \<or> (int i < r \<and> r < int (length p)))"
  using FindClosingCurlyBrace_from_range [of p "i + 1"] unfolding FindClosingCurlyBrace_def
  by force

lemma brace_block_ok:
  assumes "i < length p"
  shows "block_ok p tokens cur i (brace_block p char tokens cur i)"
proof (cases "char = CHR ''{''")
  case False
  then show ?thesis by (simp add: brace_block_def block_ok_def fallthrough_same_ok)
next
  case c: True
  obtain t c where f: "flush tokens cur = (t, c)" by (cases "flush tokens cur")
  obtain r where r: "FindClosingCurlyBrace p i = Some r" "r = - 1 \<or> (int i < r \<and> r < int (length p))"
    using FindClosingCurlyBrace_range [of p i] by blast
  show ?thesis
  proof (cases "r > int i")
    case True
    then have b: "i \<le> nat r" "nat r < length p" using r(2) by auto
    then have s: "slice p i (nat r + 1) = Some (take (nat r + 1 - i) (drop i p))" by simp
    have "brace_block p char tokens cur i = Some (Continue (t @ [take (nat r + 1 - i) (drop i p)]) c (nat r))"
      unfolding brace_block_def using r(1) True s c f by simp
    then show ?thesis using continue_span_ok [OF f assms b]
      by (simp add: block_ok_def)
  next
    case False
    then have "brace_block p char tokens cur i = Some (Fallthrough t c)"
      unfolding brace_block_def using r(1) c f by simp
    then show ?thesis using fallthrough_flushed_ok [OF f]
      by (simp add: block_ok_def)
  qed
qed

lemma single_block_ok:
  assumes "i < length p" and "p ! i = char" and "hit \<Longrightarrow> string_of_byte char = [char]"
  shows "block_ok p tokens cur i (single_block hit char tokens cur i)"
proof (cases hit)
  case False
  then show ?thesis by (simp add: single_block_def block_ok_def fallthrough_same_ok)
next
  case True
  obtain t c where f: "flush tokens cur = (t, c)" by (cases "flush tokens cur")
  have "single_block hit char tokens cur i = Some (Continue (t @ [take (i + 1 - i) (drop i p)]) c i)"
    using True f assms by (simp add: single_block_def span1)
  then show ?thesis using continue_span_ok [OF f assms(1), of i] assms(1) by (simp add: block_ok_def)
qed

lemma suffix_quantifier_block_ok:
  assumes "i < length p" and "p ! i = char"
  shows "block_ok p tokens cur i (suffix_quantifier_block sfx p char tokens cur i)"
proof (cases "is_quantifier char")
  case False
  then show ?thesis by (simp add: suffix_quantifier_block_def block_ok_def fallthrough_same_ok)
next
  case q: True
  obtain t c where f: "flush tokens cur = (t, c)" by (cases "flush tokens cur")
  show ?thesis
  proof (cases "i + 1 < length p \<and> p ! (i + 1) = sfx")
    case True
    have b: "i \<le> i + 1" "i + 1 < length p" using True by auto
    have "take (i + 1 + 1 - i) (drop i p) = [char, sfx]"
      using True assms(2) span2 [of i p] by simp
    then have "suffix_quantifier_block sfx p char tokens cur i
                 = Some (Continue (t @ [take (i + 1 + 1 - i) (drop i p)]) c (i + 1))"
      using True f q by (simp add: suffix_quantifier_block_def string_of_byte_quantifier)
    then show ?thesis using continue_span_ok [OF f assms(1) b] by (simp add: block_ok_def)
  next
    case False
    then have "suffix_quantifier_block sfx p char tokens cur i
                 = Some (Continue (t @ [take (i + 1 - i) (drop i p)]) c i)"
      using f q assms by (auto simp add: suffix_quantifier_block_def string_of_byte_quantifier span1)
    then show ?thesis using continue_span_ok [OF f assms(1), of i] assms(1) by (simp add: block_ok_def)
  qed
qed

subsection \<open>Group headers\<close>

lemma IndexByte_range: "IndexByte s c = - 1 \<or> (0 \<le> IndexByte s c \<and> IndexByte s c < int (length s))"
  by (induction s) (auto simp: Let_def)

lemma switch_bare_ok:
  assumes "i < length p" and "p ! i = CHR ''(''"
  shows "switch_ok p tokens i (Some (tokens @ [string_of_byte (CHR ''('')], i))"
  unfolding switch_ok_def using assms by (intro exI [of _ i]) (simp add: span1 string_of_byte_meta)

lemma switch_three_ok:
  assumes "i + 2 < length p" and "p ! i = a" and "p ! (i + 1) = b" and "p ! (i + 2) = c"
  shows "switch_ok p tokens i (Some (tokens @ [[a, b, c]], i + 2))"
  unfolding switch_ok_def using assms by (intro exI [of _ "i + 2"]) (simp add: span3)

lemma switch_four_ok:
  assumes "i + 3 < length p" and "p ! i = a" and "p ! (i + 1) = b" and "p ! (i + 2) = c"
    and "p ! (i + 3) = d"
  shows "switch_ok p tokens i (Some (tokens @ [[a, b, c, d]], i + 3))"
  unfolding switch_ok_def using assms by (intro exI [of _ "i + 3"]) (simp add: span4)

lemma named_group_ok:
  assumes "i + k \<le> length p" and "i < length p" and "p ! i = CHR ''(''"
  shows "switch_ok p tokens i (named_group k p (CHR ''('') tokens i)"
proof -
  let ?r = "IndexByte (drop (i + k) p) (CHR ''>'')"
  show ?thesis
  proof (cases "0 \<le> ?r")
    case False
    then have "named_group k p (CHR ''('') tokens i = Some (tokens @ [string_of_byte (CHR ''('')], i)"
      using assms(1) by (simp add: named_group_def)
    then show ?thesis using switch_bare_ok [OF assms(2,3)] by simp
  next
    case True
    then have lt: "?r < int (length p - (i + k))" using IndexByte_range [of "drop (i + k) p" "CHR ''>''"] by simp
    let ?j = "nat (?r + int (i + k))"
    have j: "i \<le> ?j" "?j < length p" using True lt by auto
    then have "slice p i (?j + 1) = Some (take (?j + 1 - i) (drop i p))" by simp
    then have "named_group k p (CHR ''('') tokens i = Some (tokens @ [take (?j + 1 - i) (drop i p)], ?j)"
      using assms(1) True by (simp add: named_group_def Let_def)
    then show ?thesis unfolding switch_ok_def using j by blast
  qed
qed

lemma lookbehind_or_named_ok:
  assumes "i + 2 < length p" and "p ! i = CHR ''(''" and "p ! (i + 1) = CHR ''?''"
    and "p ! (i + 2) = CHR ''<''"
  shows "switch_ok p tokens i (lookbehind_or_named p (CHR ''('') tokens i)"
proof (cases "i + 3 < length p")
  case False
  then show ?thesis using assms switch_bare_ok [of i p tokens] by (simp add: lookbehind_or_named_def)
next
  case True
  have i: "i < length p" using True by simp
  consider "p ! (i + 3) = CHR ''=''" | "p ! (i + 3) = CHR ''!''"
    | "p ! (i + 3) \<noteq> CHR ''=''" "p ! (i + 3) \<noteq> CHR ''!''" by blast
  then show ?thesis
  proof cases
    case 1
    then show ?thesis using True switch_four_ok [OF True assms(2,3,4) 1, of tokens]
      by (simp add: lookbehind_or_named_def)
  next
    case 2
    then show ?thesis using True switch_four_ok [OF True assms(2,3,4) 2, of tokens]
      by (simp add: lookbehind_or_named_def)
  next
    case 3
    have "i + 3 \<le> length p" using True by simp
    then show ?thesis using 3 True named_group_ok [OF _ i assms(2), of 3 tokens]
      by (simp add: lookbehind_or_named_def)
  qed
qed

lemma p_named_ok:
  assumes "i < length p" and "p ! i = CHR ''(''"
  shows "switch_ok p tokens i (p_named p (CHR ''('') tokens i)"
proof (cases "i + 3 < length p \<and> p ! (i + 3) = CHR ''<''")
  case False
  then show ?thesis using assms switch_bare_ok [of i p tokens] by (auto simp add: p_named_def)
next
  case True
  have "i + 4 \<le> length p" using True by simp
  then show ?thesis using True named_group_ok [OF _ assms, of 4 tokens]
    by (simp add: p_named_def)
qed

lemma group_block_ok:
  assumes "i < length p" and "p ! i = char"
    and sw: "\<And>tokens. i + 2 < length p \<Longrightarrow> p ! i = CHR ''('' \<Longrightarrow> p ! (i + 1) = CHR ''?''
               \<Longrightarrow> switch_ok p tokens i (switch (p ! (i + 2)) p (CHR ''('') tokens i)"
  shows "block_ok p tokens cur i (group_block switch p char tokens cur i)"
proof (cases "char = CHR ''(''")
  case False
  then show ?thesis by (simp add: group_block_def block_ok_def fallthrough_same_ok)
next
  case c: True
  obtain t c where f: "flush tokens cur = (t, c)" by (cases "flush tokens cur")
  show ?thesis
  proof (cases "i + 2 < length p \<and> p ! (i + 1) = CHR ''?''")
    case False
    then have "group_block switch p char tokens cur i
                 = Some (Continue (t @ [take (i + 1 - i) (drop i p)]) c i)"
      using f c assms(1,2) by (auto simp add: group_block_def string_of_byte_meta span1)
    then show ?thesis using continue_span_ok [OF f assms(1), of i] assms(1) by (simp add: block_ok_def)
  next
    case True
    then obtain j where j: "switch (p ! (i + 2)) p (CHR ''('') t i = Some (t @ [take (j + 1 - i) (drop i p)], j)"
        "i \<le> j" "j < length p"
      using sw [of t] c assms(2) unfolding switch_ok_def by auto
    have "group_block switch p char tokens cur i
            = Some (Continue (t @ [take (j + 1 - i) (drop i p)]) c j)"
      using True f c j(1) by (simp add: group_block_def)
    then show ?thesis using continue_span_ok [OF f assms(1) j(2,3)] by (simp add: block_ok_def)
  qed
qed

lemma Go_switch_ok:
  assumes "i + 2 < length p" and "p ! i = CHR ''(''" and "p ! (i + 1) = CHR ''?''"
  shows "switch_ok p tokens i (Go_switch (p ! (i + 2)) p (CHR ''('') tokens i)"
proof -
  have i: "i < length p" using assms(1) by simp
  show ?thesis
    unfolding Go_switch_def
    using switch_three_ok [OF assms, of "p ! (i + 2)" tokens] p_named_ok [OF i assms(2), of tokens]
      switch_bare_ok [OF i assms(2), of tokens]
    by auto
qed

lemma Pcre_switch_ok:
  assumes "i + 2 < length p" and "p ! i = CHR ''(''" and "p ! (i + 1) = CHR ''?''"
  shows "switch_ok p tokens i (Pcre_switch (p ! (i + 2)) p (CHR ''('') tokens i)"
proof -
  have i: "i < length p" using assms(1) by simp
  show ?thesis
    unfolding Pcre_switch_def
    using switch_three_ok [OF assms, of "p ! (i + 2)" tokens] p_named_ok [OF i assms(2), of tokens]
      switch_bare_ok [OF i assms(2), of tokens] lookbehind_or_named_ok [OF assms, of tokens]
    by auto
qed

lemma Js_switch_ok:
  assumes "i + 2 < length p" and "p ! i = CHR ''(''" and "p ! (i + 1) = CHR ''?''"
  shows "switch_ok p tokens i (Js_switch (p ! (i + 2)) p (CHR ''('') tokens i)"
proof -
  have i: "i < length p" using assms(1) by simp
  show ?thesis
    unfolding Js_switch_def
    using switch_three_ok [OF assms, of "p ! (i + 2)" tokens]
      switch_bare_ok [OF i assms(2), of tokens] lookbehind_or_named_ok [OF assms, of tokens]
    by auto
qed

subsection \<open>The escape and group blocks of the Python tokenizer\<close>

lemma hex_scan_range:
  assumes "\<forall>k \<in> set ks. k < length s"
  shows "\<exists>h. hex_scan s e ks = Some h \<and> (h = e \<or> h \<in> set ks)"
  using assms by (induction ks) auto

lemma hex4_Some:
  "\<exists>b. andalso (Some (i + 6 \<le> length p))
          (andalso (hex_at p (i + 2)) (andalso (hex_at p (i + 3))
          (andalso (hex_at p (i + 4)) (hex_at p (i + 5))))) = Some b \<and> (b \<longrightarrow> i + 6 \<le> length p)"
  by (cases "i + 6 \<le> length p") auto

lemma hex8_Some:
  "\<exists>b. andalso (Some (i + 10 \<le> length p))
          (andalso (hex_at p (i + 2)) (andalso (hex_at p (i + 3))
          (andalso (hex_at p (i + 4)) (andalso (hex_at p (i + 5))
          (andalso (hex_at p (i + 6)) (andalso (hex_at p (i + 7))
          (andalso (hex_at p (i + 8)) (hex_at p (i + 9))))))))) = Some b \<and> (b \<longrightarrow> i + 10 \<le> length p)"
  by (cases "i + 10 \<le> length p") auto

lemma Python_escape_block_ok:
  assumes i: "i < length p"
  shows "block_ok p tokens cur i (Python_escape_block p char tokens cur i)"
proof (cases "char = CHR 0x5C \<and> i + 1 < length p")
  case False
  then have "Python_escape_block p char tokens cur i = Some (Fallthrough tokens cur)"
    by (auto simp add: Python_escape_block_def)
  then show ?thesis by (simp add: block_ok_def fallthrough_same_ok)
next
  case esc: True
  obtain t c where f: "flush tokens cur = (t, c)" by (cases "flush tokens cur")
  note cont = continue_span_ok [OF f i]
  note fall = fallthrough_flushed_ok [OF f, of p i]
  consider (x) "i + 2 < length p" "p ! (i + 1) = CHR ''x''"
    | (u) "i + 2 < length p" "p ! (i + 1) = CHR ''u''"
    | (U) "i + 2 < length p" "p ! (i + 1) = CHR ''U''"
    | (N) "i + 2 < length p" "p ! (i + 1) = CHR ''N''" "p ! (i + 2) = CHR ''{''"
    | (other) "\<not> (i + 2 < length p \<and> p ! (i + 1) = CHR ''x'')"
        "\<not> (i + 2 < length p \<and> p ! (i + 1) = CHR ''u'')"
        "\<not> (i + 2 < length p \<and> p ! (i + 1) = CHR ''U'')"
        "\<not> (i + 2 < length p \<and> p ! (i + 1) = CHR ''N'' \<and> p ! (i + 2) = CHR ''{'')"
    by blast
  then show ?thesis
  proof cases
    case x
    let ?e = "if i + 4 > length p then length p else i + 4"
    have pre: "\<forall>k \<in> set [i + 2 ..< ?e]. k < length p" by auto
    obtain h where h: "hex_scan p ?e [i + 2 ..< ?e] = Some h" "h = ?e \<or> h \<in> set [i + 2 ..< ?e]"
      using hex_scan_range [OF pre, of ?e] by blast
    have hb: "i + 2 \<le> h" "h \<le> length p" using h(2) x(1) by (auto split: if_splits)
    then have b: "i \<le> h - 1" "h - 1 < length p" by auto
    have "slice p i h = Some (take (h - 1 + 1 - i) (drop i p))" using hb by simp
    then have "Python_escape_block p char tokens cur i
                 = Some (Continue (t @ [take (h - 1 + 1 - i) (drop i p)]) c (h - 1))"
      using esc f x h(1) by (simp add: Python_escape_block_def Let_def)
    then show ?thesis using cont [OF b] by (simp add: block_ok_def)
  next
    case u
    obtain b where b: "andalso (Some (i + 6 \<le> length p))
          (andalso (hex_at p (i + 2)) (andalso (hex_at p (i + 3))
          (andalso (hex_at p (i + 4)) (hex_at p (i + 5))))) = Some b" "b \<longrightarrow> i + 6 \<le> length p"
      using hex4_Some [of i p] by blast
    show ?thesis
    proof (cases b)
      case True
      then have r: "i \<le> i + 5" "i + 5 < length p" using b(2) by auto
      then have "slice p i (i + 6) = Some (take (i + 5 + 1 - i) (drop i p))" by simp
      then have "Python_escape_block p char tokens cur i
                   = Some (Continue (t @ [take (i + 5 + 1 - i) (drop i p)]) c (i + 5))"
        using esc f u b(1) True by (simp add: Python_escape_block_def)
      then show ?thesis using cont [OF r] by (simp add: block_ok_def)
    next
      case False
      then have "Python_escape_block p char tokens cur i = Some (Fallthrough t c)"
        using esc f u b(1) by (simp add: Python_escape_block_def)
      then show ?thesis using fall by (simp add: block_ok_def)
    qed
  next
    case U
    obtain b where b: "andalso (Some (i + 10 \<le> length p))
          (andalso (hex_at p (i + 2)) (andalso (hex_at p (i + 3))
          (andalso (hex_at p (i + 4)) (andalso (hex_at p (i + 5))
          (andalso (hex_at p (i + 6)) (andalso (hex_at p (i + 7))
          (andalso (hex_at p (i + 8)) (hex_at p (i + 9))))))))) = Some b" "b \<longrightarrow> i + 10 \<le> length p"
      using hex8_Some [of i p] by blast
    show ?thesis
    proof (cases b)
      case True
      then have r: "i \<le> i + 9" "i + 9 < length p" using b(2) by auto
      then have "slice p i (i + 10) = Some (take (i + 9 + 1 - i) (drop i p))" by simp
      then have "Python_escape_block p char tokens cur i
                   = Some (Continue (t @ [take (i + 9 + 1 - i) (drop i p)]) c (i + 9))"
        using esc f U b(1) True by (simp add: Python_escape_block_def)
      then show ?thesis using cont [OF r] by (simp add: block_ok_def)
    next
      case False
      then have "Python_escape_block p char tokens cur i = Some (Fallthrough t c)"
        using esc f U b(1) by (simp add: Python_escape_block_def)
      then show ?thesis using fall by (simp add: block_ok_def)
    qed
  next
    case N
    let ?r = "IndexByte (drop (i + 3) p) (CHR ''}'')"
    show ?thesis
    proof (cases "0 \<le> ?r")
      case True
      then have lt: "?r < int (length p - (i + 3))"
        using IndexByte_range [of "drop (i + 3) p" "CHR ''}''"] by simp
      have r: "i \<le> i + nat ?r + 3" "i + nat ?r + 3 < length p" using True lt by auto
      then have "slice p i (i + nat ?r + 4) = Some (take (i + nat ?r + 3 + 1 - i) (drop i p))"
        by (simp add: add.commute)
      then have "Python_escape_block p char tokens cur i
                   = Some (Continue (t @ [take (i + nat ?r + 3 + 1 - i) (drop i p)]) c (i + nat ?r + 3))"
        using esc f N True by (simp add: Python_escape_block_def Let_def)
      then show ?thesis using cont [OF r] by (simp add: block_ok_def)
    next
      case False
      then have "Python_escape_block p char tokens cur i = Some (Fallthrough t c)"
        using esc f N by (simp add: Python_escape_block_def Let_def)
      then show ?thesis using fall by (simp add: block_ok_def)
    qed
  next
    case other
    have r: "i \<le> i + 1" "i + 1 < length p" using esc by auto
    then have "slice p i (i + 2) = Some (take (i + 1 + 1 - i) (drop i p))" by simp
    then have "Python_escape_block p char tokens cur i
                 = Some (Continue (t @ [take (i + 1 + 1 - i) (drop i p)]) c (i + 1))"
      using esc f other by (auto simp add: Python_escape_block_def)
    then show ?thesis using cont [OF r] by (simp add: block_ok_def)
  qed
qed

lemma scan_to_paren_range: "\<exists>j'. scan_to_paren p j = Some j' \<and> j \<le> j'"
proof (induction p j rule: scan_to_paren.induct)
  case (1 pattern j)
  show ?case
  proof (cases "j < length pattern \<and> pattern ! j \<noteq> CHR '')''")
    case True
    then show ?thesis using "1.IH" [of True]
      by (auto simp add: scan_to_paren.simps [of pattern j])
  next
    case False
    then show ?thesis by (auto simp add: scan_to_paren.simps [of pattern j])
  qed
qed

lemma Python_p_case_ok:
  assumes "i + 2 < length p" and "p ! i = CHR ''(''"
  shows "switch_ok p tokens i (Python_p_case p (CHR ''('') tokens i)"
proof -
  have i: "i < length p" using assms(1) by simp
  note bare = switch_bare_ok [OF i assms(2), of tokens]
  show ?thesis
  proof (cases "i + 3 < length p")
    case False
    then show ?thesis using bare by (simp add: Python_p_case_def)
  next
    case True
    consider (lt) "p ! (i + 3) = CHR ''<''" | (eq) "p ! (i + 3) = CHR ''=''"
      | (other) "p ! (i + 3) \<noteq> CHR ''<''" "p ! (i + 3) \<noteq> CHR ''=''" by blast
    then show ?thesis
    proof cases
      case lt
      have "i + 4 \<le> length p" using True by simp
      then show ?thesis using True lt named_group_ok [OF _ i assms(2), of 4 tokens]
        by (simp add: Python_p_case_def)
    next
      case other
      then show ?thesis using True bare by (simp add: Python_p_case_def)
    next
      case eq
      obtain j where j: "scan_to_paren p (i + 4) = Some j" "i + 4 \<le> j"
        using scan_to_paren_range [of p "i + 4"] by blast
      show ?thesis
      proof (cases "j < length p")
        case False
        then show ?thesis using True eq j(1) bare by (simp add: Python_p_case_def)
      next
        case jl: True
        have "i \<le> j" using j(2) by simp
        moreover have "slice p i (j + 1) = Some (take (j + 1 - i) (drop i p))" using jl j(2) by simp
        then have "Python_p_case p (CHR ''('') tokens i = Some (tokens @ [take (j + 1 - i) (drop i p)], j)"
          using True eq j(1) jl by (simp add: Python_p_case_def)
        ultimately show ?thesis unfolding switch_ok_def using jl by blast
      qed
    qed
  qed
qed

lemma Python_switch_ok:
  assumes "i + 2 < length p" and "p ! i = CHR ''(''" and "p ! (i + 1) = CHR ''?''"
  shows "switch_ok p tokens i (Python_switch (p ! (i + 2)) p (CHR ''('') tokens i)"
proof -
  have i: "i < length p" using assms(1) by simp
  show ?thesis
    unfolding Python_switch_def
    using switch_three_ok [OF assms, of "p ! (i + 2)" tokens] Python_p_case_ok [OF assms(1,2), of tokens]
      switch_bare_ok [OF i assms(2), of tokens] lookbehind_or_named_ok [OF assms, of tokens]
    by auto
qed

subsection \<open>The class block of the POSIX tokenizer\<close>

lemma Posix_class_block_ok:
  assumes i: "i < length p"
  shows "block_ok p tokens cur i (Posix_class_block p char tokens cur i)"
proof (cases "char = CHR ''[''")
  case False
  then show ?thesis by (simp add: Posix_class_block_def block_ok_def fallthrough_same_ok)
next
  case c: True
  obtain t c where f: "flush tokens cur = (t, c)" by (cases "flush tokens cur")
  note tail = bracket_token_ok [OF f i]
  obtain r where r: "FindClosingBracket p i = Some r" "r = - 1 \<or> (int i < r \<and> r < int (length p))"
    using FindClosingBracket_range [of p i] by blast
  let ?e = "Index (drop i p) '':]''"
  show ?thesis
  proof (cases "i + 2 < length p \<and> p ! (i + 1) = CHR ''['' \<and> p ! (i + 2) = CHR '':'' \<and> ?e > 3
                  \<and> r > int i + ?e + 2")
    case False
    then have "Posix_class_block p char tokens cur i = bracket_token p t c i"
      using c f r(1) i by (auto simp add: Posix_class_block_def Let_def)
    then show ?thesis using tail by simp
  next
    case True
    then have b: "i \<le> nat r" "nat r < length p" using r(2) by auto
    then have "slice p i (nat r + 1) = Some (take (nat r + 1 - i) (drop i p))" by simp
    then have "Posix_class_block p char tokens cur i
                 = Some (Continue (t @ [take (nat r + 1 - i) (drop i p)]) c (nat r))"
      using c f r(1) i True by (simp add: Posix_class_block_def Let_def)
    then show ?thesis using continue_span_ok [OF f i b] by (simp add: block_ok_def)
  qed
qed

subsection \<open>Loop bodies and the loop\<close>

lemma falls_ok:
  assumes "block_ok p tokens cur i r" and "\<And>t c. body_ok p t c i (k t c)"
  shows "body_ok p tokens cur i (falls r k)"
proof -
  from assms(1) obtain fl where fl: "r = Some fl" "advances p tokens cur i fl"
    by (auto simp: block_ok_def)
  show ?thesis
  proof (cases fl)
    case (Continue t c j)
    then show ?thesis using fl by (simp add: falls_def body_ok_def advances_def)
  next
    case (Fallthrough t c)
    then have e: "extends tokens cur t c []" using fl(2) by (simp add: advances_def)
    from assms(2) [of t c] obtain t' c' j where k: "k t c = Some (t', c', j)" "i \<le> j" "j < length p"
        "extends t c t' c' (take (j + 1 - i) (drop i p))"
      by (auto simp: body_ok_def)
    have "extends tokens cur t' c' ([] @ take (j + 1 - i) (drop i p))"
      using extends_trans [OF e k(4)] .
    then show ?thesis using Fallthrough fl(1) k by (simp add: falls_def body_ok_def)
  qed
qed

lemma default_ok:
  assumes "i < length p"
  shows "body_ok p tokens cur i (Some (tokens, cur @ [p ! i], i))"
proof -
  have "extends tokens cur tokens (cur @ [p ! i]) (take (i + 1 - i) (drop i p))"
    using assms by (simp add: extends_def span1)
  then show ?thesis using assms by (simp add: body_ok_def)
qed

lemma Go_body_ok:
  assumes i: "i < length p"
  shows "body_ok p tokens cur i (Go_body p tokens cur i)"
  unfolding Go_body_def using i
  by (simp, intro falls_ok class_block_ok escape_block_ok brace_block_ok
        group_block_ok [OF _ refl] Go_switch_ok default_ok)
    (auto intro!: single_block_ok simp: string_of_byte_quantifier string_of_byte_meta)

lemma Pcre_body_ok:
  assumes i: "i < length p"
  shows "body_ok p tokens cur i (Pcre_body p tokens cur i)"
  unfolding Pcre_body_def using i
  by (simp, intro falls_ok class_block_ok escape_block_ok brace_block_ok suffix_quantifier_block_ok
        group_block_ok [OF _ refl] Pcre_switch_ok default_ok)
    (auto intro!: single_block_ok simp: string_of_byte_meta)

lemma Posix_body_ok:
  assumes i: "i < length p"
  shows "body_ok p tokens cur i (Posix_body p tokens cur i)"
  unfolding Posix_body_def using i
  by (simp, intro falls_ok Posix_class_block_ok escape_block_ok brace_block_ok default_ok)
    (auto intro!: single_block_ok simp: string_of_byte_quantifier string_of_byte_meta)

lemma Js_body_ok:
  assumes i: "i < length p"
  shows "body_ok p tokens cur i (Js_body p tokens cur i)"
  unfolding Js_body_def using i
  by (simp, intro falls_ok class_block_ok escape_block_ok brace_block_ok suffix_quantifier_block_ok
        group_block_ok [OF _ refl] Js_switch_ok default_ok)
    (auto intro!: single_block_ok simp: string_of_byte_meta)

lemma Python_body_ok:
  assumes i: "i < length p"
  shows "body_ok p tokens cur i (Python_body p tokens cur i)"
  unfolding Python_body_def using i
  by (simp, intro falls_ok class_block_ok Python_escape_block_ok brace_block_ok
        suffix_quantifier_block_ok group_block_ok [OF _ refl] Python_switch_ok default_ok)
    (auto intro!: single_block_ok simp: string_of_byte_meta)

lemma span_join: "i \<le> j \<Longrightarrow> take (j + 1 - i) (drop i p) @ drop (j + 1) p = drop i p"
proof -
  assume "i \<le> j"
  then have "drop (j + 1) p = drop (j + 1 - i) (drop i p)" by simp
  then show ?thesis by (simp only: append_take_drop_id)
qed

lemma for_loop_ok:
  assumes body: "\<And>tokens cur i. i < length p \<Longrightarrow> body_ok p tokens cur i (body p tokens cur i)"
  shows "\<exists>t c. for_loop body p tokens cur i = Some (t, c) \<and> extends tokens cur t c (drop i p)"
proof (induction "length p - i" arbitrary: i tokens cur rule: less_induct)
  case less
  show ?case
  proof (cases "i < length p")
    case False
    then show ?thesis by (simp add: for_loop.simps [of body p tokens cur i] extends_refl)
  next
    case True
    from body [OF True, of tokens cur] obtain t c j
      where b: "body p tokens cur i = Some (t, c, j)" "i \<le> j" "j < length p"
        "extends tokens cur t c (take (j + 1 - i) (drop i p))"
      by (auto simp: body_ok_def)
    have "length p - (j + 1) < length p - i" using b(2,3) by simp
    from less [OF this, of t c] obtain t' c'
      where r: "for_loop body p t c (j + 1) = Some (t', c')" "extends t c t' c' (drop (j + 1) p)"
      by blast
    have "for_loop body p tokens cur i = Some (t', c')"
      using True b(1) r(1) by (simp add: for_loop.simps [of body p tokens cur i])
    moreover have "extends tokens cur t' c' (drop i p)"
      using extends_trans [OF b(4) r(2)] span_join [OF b(2), of p] by simp
    ultimately show ?thesis by blast
  qed
qed

lemma tokenize_loop_ok:
  assumes body: "\<And>tokens cur i. i < length p \<Longrightarrow> body_ok p tokens cur i (body p tokens cur i)"
  shows "\<exists>ts. (for_loop body p pre [] 0 \<bind> (\<lambda>(tokens, cur). Some (fst (flush tokens cur))))
                = Some (pre @ ts) \<and> [] \<notin> set ts \<and> concat ts = p"
proof -
  from for_loop_ok [of p body pre "[]" 0, OF body] obtain t c
    where r: "for_loop body p pre [] 0 = Some (t, c)" "extends pre [] t c (drop 0 p)"
    by blast
  have "extends t c (fst (flush t c)) (snd (flush t c)) []" by (rule extends_flush)
  from extends_trans [OF r(2) this] have "extends pre [] (fst (flush t c)) [] p"
    by (simp add: flush_cur)
  then obtain ts where "fst (flush t c) = pre @ ts" "[] \<notin> set ts" "concat ts = p"
    by (auto simp: extends_def)
  then show ?thesis using r(1) by simp
qed

lemma concat_Nil_tokens: "[] \<notin> set ts \<Longrightarrow> concat ts = [] \<Longrightarrow> ts = []"
  by (cases ts) auto

lemma Go_TokenizeRegex_ok: "\<exists>ts. Go_TokenizeRegex p = Some ts \<and> [] \<notin> set ts \<and> concat ts = p"
  using tokenize_loop_ok [of p Go_body "[]", OF Go_body_ok] by (simp add: Go_TokenizeRegex_def)

lemma Pcre_TokenizeRegex_ok: "\<exists>ts. Pcre_TokenizeRegex p = Some ts \<and> [] \<notin> set ts \<and> concat ts = p"
  using tokenize_loop_ok [of p Pcre_body "[]", OF Pcre_body_ok] by (simp add: Pcre_TokenizeRegex_def)

lemma Posix_TokenizeRegex_ok: "\<exists>ts. Posix_TokenizeRegex p = Some ts \<and> [] \<notin> set ts \<and> concat ts = p"
  using tokenize_loop_ok [of p Posix_body "[]", OF Posix_body_ok] by (simp add: Posix_TokenizeRegex_def)

subsection \<open>The pre-passes of the JS and Python tokenizers\<close>

lemma LastIndex_byte_range:
  "LastIndex s [c] = - 1 \<or> (0 \<le> LastIndex s [c] \<and> nat (LastIndex s [c]) < length s
     \<and> s ! nat (LastIndex s [c]) = c)"
proof (induction s)
  case Nil
  then show ?case by simp
next
  case (Cons x xs)
  show ?case
  proof (cases "0 \<le> LastIndex xs [c]")
    case True
    then have "nat (LastIndex xs [c] + 1) = Suc (nat (LastIndex xs [c]))" by simp
    then show ?thesis using True Cons by (simp add: Let_def)
  next
    case False
    then show ?thesis by (simp add: Let_def HasPrefix_def)
  qed
qed

lemma split_at_index:
  assumes "0 < r" and "r < length p"
  shows "p = p ! 0 # take (r - 1) (drop 1 p) @ p ! r # drop (r + 1) p"
proof -
  have "p = take r p @ p ! r # drop (Suc r) p" using assms(2) by (simp add: id_take_nth_drop)
  moreover have "take r p = p ! 0 # take (r - 1) (drop 1 p)"
    using assms by (cases p; cases r) (auto simp: drop_Suc)
  ultimately show ?thesis by (metis Suc_eq_plus1 append_Cons)
qed

lemma Js_prepass_ok:
  "\<exists>marker core. Js_prepass p = Some (marker, core) \<and> [] \<notin> set marker
     \<and> (p \<noteq> [] \<longrightarrow> marker \<noteq> [] \<or> core \<noteq> [])
     \<and> ((marker = [] \<and> core = p) \<or> (marker = [] \<and> p = ''/'' @ core @ ''/'')
          \<or> (\<exists>flags. flags \<noteq> [] \<and> marker = [''/'' @ flags] \<and> p = ''/'' @ core @ ''/'' @ flags))"
proof (cases "length p > 2 \<and> p ! 0 = CHR ''/''")
  case False
  have "Js_prepass p = Some ([], p)"
  proof (cases "length p > 2")
    case True
    then have "byte_is p 0 (CHR ''/'') = Some False"
      using False by (cases p) (simp_all add: byte_is_def byte_at_def)
    then show ?thesis using True by (simp add: Js_prepass_def)
  next
    case False
    then show ?thesis by (simp add: Js_prepass_def)
  qed
  then show ?thesis by simp
next
  case env: True
  then have first: "byte_is p 0 (CHR ''/'') = Some True"
    by (cases p) (simp_all add: byte_is_def byte_at_def)
  let ?r = "LastIndex p ''/''"
  show ?thesis
  proof (cases "?r > 0 \<and> ?r < int (length p) - 1")
    case True
    let ?n = "nat ?r"
    have n: "0 < ?n" "?n + 1 < length p" using True by auto
    then have slash: "p ! ?n = CHR ''/''" using LastIndex_byte_range [of p "CHR ''/''"] True by auto
    let ?flags = "drop (?n + 1) p" and ?core = "take (?n - 1) (drop 1 p)"
    have fl: "?flags \<noteq> []" using n by simp
    have "slice_from p (?n + 1) = Some ?flags" "slice p 1 ?n = Some ?core" using n by simp_all
    then have "Js_prepass p = Some ([''/'' @ ?flags], ?core)"
      using env first True fl by (simp add: Js_prepass_def Let_def)
    moreover have "p = ''/'' @ ?core @ ''/'' @ ?flags"
      using split_at_index [of ?n p] n env slash by simp
    ultimately show ?thesis using fl by auto
  next
    case False
    show ?thesis
    proof (cases "p ! (length p - 1) = CHR ''/''")
      case f: False
      then have "Js_prepass p = Some ([], p)"
        using env first False by (auto simp add: Js_prepass_def Let_def)
      then show ?thesis by simp
    next
      case t: True
      let ?core = "take (length p - 1 - 1) (drop 1 p)"
      have "slice p 1 (length p - 1) = Some ?core" using env by (auto simp add: slice_def)
      then have "Js_prepass p = Some ([], ?core)"
        using env first False t by (auto simp add: Js_prepass_def Let_def)
      moreover have "p = ''/'' @ ?core @ ''/''"
      proof -
        have a: "0 < length p - 1" "length p - 1 < length p" using env by auto
        have "p = p ! 0 # take (length p - 1 - 1) (drop 1 p) @ p ! (length p - 1) # drop (length p - 1 + 1) p"
          by (rule split_at_index [OF a])
        moreover have "drop (length p - 1 + 1) p = []" using a by simp
        ultimately show ?thesis using env t by simp
      qed
      moreover have "?core \<noteq> []" using env by auto
      ultimately show ?thesis by auto
    qed
  qed
qed

lemma flag_scan_Some:
  assumes "\<forall>k \<in> set ks. k < length s"
  shows "\<exists>b. flag_scan s ks = Some b"
  using assms by (induction ks) auto

lemma Python_raw_prefix_ok:
  "\<exists>pre rest. Python_raw_prefix p = Some (pre, rest) \<and> [] \<notin> set pre \<and> concat pre @ rest = p"
proof (cases "length p > 1 \<and> (p ! 0 = CHR ''r'' \<or> p ! 0 = CHR ''R'')
                \<and> (p ! 1 = CHR 0x22 \<or> p ! 1 = CHR 0x27)")
  case True
  then have len: "0 < length p" "1 < length p" "2 \<le> length p" by auto
  have "Python_raw_prefix p = Some ([take 2 p], drop 2 p)"
    using True len by (auto simp add: Python_raw_prefix_def)
  moreover have "take 2 p \<noteq> []" using len by auto
  ultimately show ?thesis by simp
next
  case False
  have "Python_raw_prefix p = Some ([], p)"
  proof (cases "length p > 0")
    case f: False
    then show ?thesis by (simp add: Python_raw_prefix_def)
  next
    case l0: True
    show ?thesis
    proof (cases "length p > 1")
      case True
      then show ?thesis using False l0 by (auto simp add: Python_raw_prefix_def)
    next
      case l1: False
      then show ?thesis using l0 by (auto simp add: Python_raw_prefix_def)
    qed
  qed
  then show ?thesis by simp
qed

lemma Python_inline_flags_ok:
  "\<exists>ts rest. Python_inline_flags tokens p = Some (tokens @ ts, rest) \<and> [] \<notin> set ts
     \<and> concat ts @ rest = p"
proof -
  let ?e = "IndexByte p (CHR '')'')"
  have scan: "\<exists>b. flag_scan p [2 ..< nat ?e] = Some b"
    using IndexByte_range [of p "CHR '')''"] by (intro flag_scan_Some) auto
  then obtain b where b: "flag_scan p [2 ..< nat ?e] = Some b" by blast
  show ?thesis
  proof (cases "length p > 2 \<and> p ! 0 = CHR ''('' \<and> p ! 1 = CHR ''?'' \<and> ?e > 2 \<and> b")
    case True
    then have e: "nat ?e + 1 \<le> length p" using IndexByte_range [of p "CHR '')''"] by auto
    have len: "0 < length p" "1 < length p" using True by auto
    have "Python_inline_flags tokens p = Some (tokens @ [take (nat ?e + 1) p], drop (nat ?e + 1) p)"
      using True e len b by (simp add: Python_inline_flags_def Let_def)
    moreover have "take (nat ?e + 1) p \<noteq> []" using len by auto
    ultimately show ?thesis by simp
  next
    case False
    have "Python_inline_flags tokens p = Some (tokens, p)"
    proof (cases "length p > 2")
      case f: False
      then show ?thesis by (simp add: Python_inline_flags_def)
    next
      case True
      then have len: "0 < length p" "1 < length p" by auto
      show ?thesis using False True len b by (auto simp add: Python_inline_flags_def Let_def)
    qed
    then show ?thesis by simp
  qed
qed

lemma Python_prepass_ok:
  "\<exists>pre core. Python_prepass p = Some (pre, core) \<and> [] \<notin> set pre \<and> concat pre @ core = p"
proof -
  obtain pre rest where a: "Python_raw_prefix p = Some (pre, rest)" "[] \<notin> set pre"
      "concat pre @ rest = p"
    using Python_raw_prefix_ok [of p] by blast
  obtain ts core where b: "Python_inline_flags pre rest = Some (pre @ ts, core)" "[] \<notin> set ts"
      "concat ts @ core = rest"
    using Python_inline_flags_ok [of pre rest] by blast
  have "Python_prepass p = Some (pre @ ts, core)" using a(1) b(1) by (simp add: Python_prepass_def)
  moreover have "concat (pre @ ts) @ core = p" using a(3) b(3) by simp
  moreover have "[] \<notin> set (pre @ ts)" using a(2) b(2) by simp
  ultimately show ?thesis by blast
qed

lemma Js_TokenizeRegex_ok:
  "\<exists>marker core ts. Js_prepass p = Some (marker, core) \<and> Js_TokenizeRegex p = Some (marker @ ts)
     \<and> [] \<notin> set ts \<and> concat ts = core"
proof -
  obtain marker core where m: "Js_prepass p = Some (marker, core)"
    using Js_prepass_ok [of p] by blast
  from tokenize_loop_ok [of core Js_body marker, OF Js_body_ok] obtain ts
    where "(for_loop Js_body core marker [] 0 \<bind> (\<lambda>(tokens, cur). Some (fst (flush tokens cur))))
             = Some (marker @ ts)" "[] \<notin> set ts" "concat ts = core"
    by blast
  then show ?thesis using m by (simp add: Js_TokenizeRegex_def)
qed

lemma Python_TokenizeRegex_ok:
  "\<exists>pre core ts. Python_prepass p = Some (pre, core) \<and> Python_TokenizeRegex p = Some (pre @ ts)
     \<and> [] \<notin> set ts \<and> concat ts = core"
proof -
  obtain pre core where m: "Python_prepass p = Some (pre, core)"
    using Python_prepass_ok [of p] by blast
  from tokenize_loop_ok [of core Python_body pre, OF Python_body_ok] obtain ts
    where "(for_loop Python_body core pre [] 0 \<bind> (\<lambda>(tokens, cur). Some (fst (flush tokens cur))))
             = Some (pre @ ts)" "[] \<notin> set ts" "concat ts = core"
    by blast
  then show ?thesis using m by (simp add: Python_TokenizeRegex_def)
qed

section \<open>Coverage and totality of the tokenizers\<close>

text \<open>
  Claim C2. For every pattern and each of the five dialects, the tokens in order, without
  the synthesized JS marker \<open>/flags\<close>, concatenate to the pattern that the loop scans:
  the whole pattern for Go, PCRE and POSIX; for JS the pattern without its
  \<open>/.../flags\<close> envelope, where the marker is the only token that is no source span; for
  Python the pattern after the raw-string prefix and the leading inline-flags group, which
  are emitted as tokens of their own, so that there all tokens together give back the
  input. No source character is lost or duplicated.
\<close>

theorem tokens_cover_pattern:
  "(\<exists>ts. TokenizeRegex GoFormat p = Some ts \<and> concat ts = p)
   \<and> (\<exists>ts. TokenizeRegex PcreFormat p = Some ts \<and> concat ts = p)
   \<and> (\<exists>ts. TokenizeRegex PosixFormat p = Some ts \<and> concat ts = p)
   \<and> (\<exists>marker core ts. Js_prepass p = Some (marker, core)
         \<and> TokenizeRegex JsFormat p = Some (marker @ ts) \<and> concat ts = core
         \<and> ((marker = [] \<and> core = p) \<or> (marker = [] \<and> p = ''/'' @ core @ ''/'')
              \<or> (\<exists>flags. 0 < length flags \<and> marker = [''/'' @ flags]
                    \<and> p = ''/'' @ core @ ''/'' @ flags)))
   \<and> (\<exists>pre core ts. Python_prepass p = Some (pre, core)
         \<and> TokenizeRegex PythonFormat p = Some (pre @ ts) \<and> concat ts = core
         \<and> concat pre @ core = p)"
proof (intro conjI)
  show "\<exists>ts. TokenizeRegex GoFormat p = Some ts \<and> concat ts = p"
    using Go_TokenizeRegex_ok [of p] by auto
  show "\<exists>ts. TokenizeRegex PcreFormat p = Some ts \<and> concat ts = p"
    using Pcre_TokenizeRegex_ok [of p] by auto
  show "\<exists>ts. TokenizeRegex PosixFormat p = Some ts \<and> concat ts = p"
    using Posix_TokenizeRegex_ok [of p] by auto
  show "\<exists>marker core ts. Js_prepass p = Some (marker, core)
         \<and> TokenizeRegex JsFormat p = Some (marker @ ts) \<and> concat ts = core
         \<and> ((marker = [] \<and> core = p) \<or> (marker = [] \<and> p = ''/'' @ core @ ''/'')
              \<or> (\<exists>flags. 0 < length flags \<and> marker = [''/'' @ flags]
                    \<and> p = ''/'' @ core @ ''/'' @ flags))"
  proof -
    obtain marker core ts where a: "Js_prepass p = Some (marker, core)"
        "Js_TokenizeRegex p = Some (marker @ ts)" "concat ts = core"
      using Js_TokenizeRegex_ok [of p] by blast
    have "(marker = [] \<and> core = p) \<or> (marker = [] \<and> p = ''/'' @ core @ ''/'')
            \<or> (\<exists>flags. 0 < length flags \<and> marker = [''/'' @ flags]
                  \<and> p = ''/'' @ core @ ''/'' @ flags)"
      using Js_prepass_ok [of p] a(1) by auto
    then show ?thesis using a by auto
  qed
  show "\<exists>pre core ts. Python_prepass p = Some (pre, core)
         \<and> TokenizeRegex PythonFormat p = Some (pre @ ts) \<and> concat ts = core
         \<and> concat pre @ core = p"
  proof -
    obtain pre core ts where a: "Python_prepass p = Some (pre, core)"
        "Python_TokenizeRegex p = Some (pre @ ts)" "concat ts = core"
      using Python_TokenizeRegex_ok [of p] by blast
    have "concat pre @ core = p" using Python_prepass_ok [of p] a(1) by auto
    then show ?thesis using a by auto
  qed
qed

text \<open>
  Claim C7. For every dialect the tokenizer returns a token list on every input (it neither
  panics nor loops), every token has length at least 1, and the list is empty exactly when
  the input is empty.
\<close>

theorem tokenize_total:
  "\<exists>ts. TokenizeRegex fmt p = Some ts \<and> list_all (\<lambda>t. 1 \<le> length t) ts \<and> (ts = [] \<longleftrightarrow> p = [])"
proof -
  have "\<exists>ts. TokenizeRegex fmt p = Some ts \<and> [] \<notin> set ts \<and> (ts = [] \<longleftrightarrow> p = [])"
  proof (cases fmt)
    case GoFormat
    then show ?thesis using Go_TokenizeRegex_ok [of p] concat_Nil_tokens by auto
  next
    case PcreFormat
    then show ?thesis using Pcre_TokenizeRegex_ok [of p] concat_Nil_tokens by auto
  next
    case PosixFormat
    then show ?thesis using Posix_TokenizeRegex_ok [of p] concat_Nil_tokens by auto
  next
    case JsFormat
    obtain marker core ts where a: "Js_prepass p = Some (marker, core)"
        "Js_TokenizeRegex p = Some (marker @ ts)" "[] \<notin> set ts" "concat ts = core"
      using Js_TokenizeRegex_ok [of p] by blast
    have m: "[] \<notin> set marker" "p \<noteq> [] \<longrightarrow> marker \<noteq> [] \<or> core \<noteq> []"
        "(marker = [] \<and> core = p) \<or> (marker = [] \<and> p = ''/'' @ core @ ''/'')
          \<or> (\<exists>flags. flags \<noteq> [] \<and> marker = [''/'' @ flags] \<and> p = ''/'' @ core @ ''/'' @ flags)"
      using Js_prepass_ok [of p] a(1) by auto
    have "marker @ ts = [] \<longleftrightarrow> p = []"
    proof
      assume "marker @ ts = []"
      then have "marker = []" "core = []" using a(4) by auto
      then show "p = []" using m(2) by blast
    next
      assume "p = []"
      then have "marker = []" "core = []" using m(3) by auto
      then show "marker @ ts = []" using a(3,4) concat_Nil_tokens by auto
    qed
    then show ?thesis using JsFormat a(2,3) m(1) by auto
  next
    case PythonFormat
    obtain pre core ts where a: "Python_prepass p = Some (pre, core)"
        "Python_TokenizeRegex p = Some (pre @ ts)" "[] \<notin> set ts" "concat ts = core"
      using Python_TokenizeRegex_ok [of p] by blast
    have m: "[] \<notin> set pre" "concat pre @ core = p" using Python_prepass_ok [of p] a(1) by auto
    have "[] \<notin> set (pre @ ts)" "concat (pre @ ts) = p" using a(3,4) m by auto
    then show ?thesis using PythonFormat a(2) concat_Nil_tokens [of "pre @ ts"] by auto
  qed
  then obtain ts where ts: "TokenizeRegex fmt p = Some ts" "[] \<notin> set ts" "ts = [] \<longleftrightarrow> p = []"
    by blast
  have "list_all (\<lambda>t. 1 \<le> length t) ts"
    using ts(2) by (induction ts) (auto simp: Suc_le_eq)
  then show ?thesis using ts by blast
qed

theorem tokenize_total_witness:
  "\<exists>ts. TokenizeRegex JsFormat ''//g'' = Some ts \<and> list_all (\<lambda>t. 1 \<le> length t) ts
     \<and> (ts = [] \<longleftrightarrow> ''//g'' = [])"
  using tokenize_total [of JsFormat "''//g''"] by simp

section \<open>The closing-bracket scan\<close>

lemma FindClosingBracket_from_step:
  "FindClosingBracket_from p start i =
     (if i < length p then
        (if accepts_bracket p start i then Some (int i) else FindClosingBracket_from p start (i + 1))
      else Some (- 1))"
proof (cases "i < length p")
  case False
  then show ?thesis by (simp add: FindClosingBracket_from.simps [of p start i])
next
  case True
  then have "i - 1 < length p" by simp
  then show ?thesis using True
    by (simp add: FindClosingBracket_from.simps [of p start i] accepts_bracket_def)
qed

lemma accepts_bracket_bound: "accepts_bracket p start j \<Longrightarrow> j < length p"
  by (simp add: accepts_bracket_def)

lemma FindClosingBracket_from_first:
  "\<exists>r. FindClosingBracket_from p start i = Some r
     \<and> (if r < 0 then \<forall>j\<ge>i. \<not> accepts_bracket p start j
         else i \<le> nat r \<and> accepts_bracket p start (nat r)
              \<and> (\<forall>j. i \<le> j \<and> j < nat r \<longrightarrow> \<not> accepts_bracket p start j))"
  (is "\<exists>r. _ = Some r \<and> ?Q i r")
proof (induction p start i rule: FindClosingBracket_from.induct)
  case (1 pattern start i)
  let ?P = "\<lambda>i r. if r < 0 then \<forall>j\<ge>i. \<not> accepts_bracket pattern start j
         else i \<le> nat r \<and> accepts_bracket pattern start (nat r)
              \<and> (\<forall>j. i \<le> j \<and> j < nat r \<longrightarrow> \<not> accepts_bracket pattern start j)"
  show ?case
  proof (cases "i < length pattern")
    case False
    have a: "\<forall>j\<ge>i. \<not> accepts_bracket pattern start j"
      using False accepts_bracket_bound [of pattern start] by fastforce
    have b: "FindClosingBracket_from pattern start i = Some (- 1)"
      using False by (simp add: FindClosingBracket_from_step [of pattern start i])
    have c: "?P i (- 1)" using a by simp
    show ?thesis using b c by blast
  next
    case True
    show ?thesis
    proof (cases "accepts_bracket pattern start i")
      case a: True
      have b: "FindClosingBracket_from pattern start i = Some (int i)"
        using True a by (simp add: FindClosingBracket_from_step [of pattern start i])
      have c: "?P i (int i)" using a by auto
      show ?thesis using b c by blast
    next
      case n: False
      have b: "andalso (byte_is pattern i (CHR '']''))
                 (orelse (Some (i = start + 1)) (byte_isnt pattern (i - 1) (CHR 0x5C))) = Some False"
      proof -
        have "i - 1 < length pattern" using True by simp
        then show ?thesis using True n by (simp add: accepts_bracket_def)
      qed
      from "1.IH" [OF True b] obtain r where r: "FindClosingBracket_from pattern start (i + 1) = Some r"
          "?P (i + 1) r"
        by blast
      have eq: "FindClosingBracket_from pattern start i = Some r"
        using True n r(1) by (simp add: FindClosingBracket_from_step [of pattern start i])
      have "?P i r"
      proof (cases "r < 0")
        case True
        then have later: "\<forall>j\<ge>i + 1. \<not> accepts_bracket pattern start j" using r(2) by simp
        have "\<forall>j\<ge>i. \<not> accepts_bracket pattern start j"
        proof (intro allI impI)
          fix j assume "i \<le> j"
          then have "j = i \<or> i + 1 \<le> j" by auto
          then show "\<not> accepts_bracket pattern start j" using n later by blast
        qed
        then show ?thesis using True by simp
      next
        case False
        then have later: "i + 1 \<le> nat r" "accepts_bracket pattern start (nat r)"
            "\<forall>j. i + 1 \<le> j \<and> j < nat r \<longrightarrow> \<not> accepts_bracket pattern start j"
          using r(2) by simp_all
        have "\<forall>j. i \<le> j \<and> j < nat r \<longrightarrow> \<not> accepts_bracket pattern start j"
        proof (intro allI impI)
          fix j assume j: "i \<le> j \<and> j < nat r"
          then have "j = i \<or> i + 1 \<le> j" by auto
          then show "\<not> accepts_bracket pattern start j" using n later(3) j by blast
        qed
        moreover have "i \<le> nat r" using later(1) by simp
        ultimately show ?thesis using False later(2) by simp
      qed
      then show ?thesis using eq by blast
    qed
  qed
qed

text \<open>
  Claim C1 states that a \<open>]\<close> right after the opening bracket is a member of the class,
  so that \<open>[]abc]\<close> is one token whose closing bracket is found at index 5. The code
  does not do that. The scan accepts the \<open>]\<close> at \<open>start + 1\<close> at once: on
  \<open>[]abc]\<close>, as on every pattern that begins with \<open>[]\<close>, it returns 1, and the
  baseline tokenizer emits the class token \<open>[]\<close> followed by the literal run
  \<open>abc]\<close>. The disjunct \<^verbatim>\<open>i == start+1\<close> of the test has no effect when the byte at
  \<open>start\<close> is no backslash, as it is for every caller, which passes the index of a
  \<open>[\<close>.
\<close>

theorem first_position_bracket_closes:
  "FindClosingBracket ''[]abc]'' 0 = Some 1
   \<and> FindClosingBracket ''[]abc]'' 0 \<noteq> Some 5
   \<and> TokenizeRegex GoFormat ''[]abc]'' = Some [''[]'', ''abc]'']
   \<and> FindClosingBracket (CHR ''['' # CHR '']'' # rest) 0 = Some 1
   \<and> (p ! start \<noteq> CHR 0x5C \<longrightarrow>
        accepts_bracket p start j = (j < length p \<and> p ! j = CHR '']'' \<and> p ! (j - 1) \<noteq> CHR 0x5C))"
proof (intro conjI impI)
  show "FindClosingBracket ''[]abc]'' 0 = Some 1" by code_simp
  show "FindClosingBracket ''[]abc]'' 0 \<noteq> Some 5" by code_simp
  show "TokenizeRegex GoFormat ''[]abc]'' = Some [''[]'', ''abc]'']" by code_simp
  show "FindClosingBracket (CHR ''['' # CHR '']'' # rest) 0 = Some 1"
    by (simp add: FindClosingBracket_def
        FindClosingBracket_from_step [of "CHR ''['' # CHR '']'' # rest" 0 "Suc 0"] accepts_bracket_def)
next
  assume "p ! start \<noteq> CHR 0x5C"
  then show "accepts_bracket p start j = (j < length p \<and> p ! j = CHR '']'' \<and> p ! (j - 1) \<noteq> CHR 0x5C)"
    by (auto simp add: accepts_bracket_def)
qed

theorem first_position_bracket_closes_witness:
  "accepts_bracket ''[]abc]'' 0 1 \<and> FindClosingBracket (CHR ''['' # CHR '']'' # ''abc]'') 0 = Some 1"
  using first_position_bracket_closes [of "''abc]''" "''[]abc]''" 0 1] by simp

section \<open>The nested POSIX class\<close>

lemma Index_HasPrefix: "0 \<le> Index s sub \<Longrightarrow> HasPrefix (drop (nat (Index s sub)) s) sub"
proof (induction s)
  case Nil
  then show ?case by (simp add: HasPrefix_def split: if_splits)
next
  case (Cons x xs)
  show ?case
  proof (cases "HasPrefix (x # xs) sub")
    case True
    then show ?thesis by simp
  next
    case False
    then have r: "0 \<le> Index xs sub" "Index (x # xs) sub = Index xs sub + 1"
      using Cons.prems by (auto simp: Let_def split: if_splits)
    have "nat (Index xs sub + 1) = Suc (nat (Index xs sub))" using r(1) by simp
    then show ?thesis using r Cons.IH by simp
  qed
qed

lemma marker_closes:
  assumes "0 \<le> Index (drop i p) '':]''"
  shows "accepts_bracket p i (i + nat (Index (drop i p) '':]'') + 1)"
proof -
  let ?e = "nat (Index (drop i p) '':]'')"
  have h: "HasPrefix (drop ?e (drop i p)) '':]''" using Index_HasPrefix [OF assms] .
  then have len: "2 \<le> length (drop (i + ?e) p)" by (simp add: HasPrefix_def add.commute)
  then have b: "i + ?e + 1 < length p" by simp
  have "take 2 (drop (i + ?e) p) = '':]''"
    using h by (simp add: HasPrefix_def add.commute numeral_2_eq_2)
  moreover have "take 2 (drop (i + ?e) p) = [p ! (i + ?e), p ! (i + ?e + 1)]"
    using b by (rule span2)
  ultimately have "p ! (i + ?e) = CHR '':''" "p ! (i + ?e + 1) = CHR '']''" by simp_all
  then show ?thesis using b by (simp add: accepts_bracket_def)
qed

lemma Posix_class_block_eq: "Posix_class_block p char tokens cur i = class_block p char tokens cur i"
proof (cases "char = CHR ''[''")
  case False
  then show ?thesis by (simp add: Posix_class_block_def class_block_def)
next
  case c: True
  obtain t c where f: "flush tokens cur = (t, c)" by (cases "flush tokens cur")
  let ?e = "Index (drop i p) '':]''"
  show ?thesis
  proof (cases "i + 2 < length p \<and> p ! (i + 1) = CHR ''['' \<and> p ! (i + 2) = CHR '':'' \<and> ?e > 3")
    case False
    then have "Posix_class_block p char tokens cur i = bracket_token p t c i"
      using c f by (auto simp add: Posix_class_block_def Let_def)
    then show ?thesis using c f by (simp add: class_block_def)
  next
    case True
    from FindClosingBracket_from_first [of p i "i + 1"] obtain r
      where r: "FindClosingBracket p i = Some r"
        "if r < 0 then \<forall>j\<ge>i + 1. \<not> accepts_bracket p i j
         else i + 1 \<le> nat r \<and> accepts_bracket p i (nat r)
              \<and> (\<forall>j. i + 1 \<le> j \<and> j < nat r \<longrightarrow> \<not> accepts_bracket p i j)"
      unfolding FindClosingBracket_def by blast
    have m: "accepts_bracket p i (i + nat ?e + 1)" using True marker_closes [of i p] by simp
    have "\<not> r > int i + ?e + 2"
    proof
      assume gt: "r > int i + ?e + 2"
      then have "\<not> r < 0" using True by simp
      then have "\<forall>j. i + 1 \<le> j \<and> j < nat r \<longrightarrow> \<not> accepts_bracket p i j" using r(2) by simp
      moreover have "i + 1 \<le> i + nat ?e + 1 \<and> i + nat ?e + 1 < nat r" using gt True by auto
      ultimately show False using m by blast
    qed
    then have "Posix_class_block p char tokens cur i = bracket_token p t c i"
      using c f True r(1) by (simp add: Posix_class_block_def Let_def)
    then show ?thesis using c f by (simp add: class_block_def)
  qed
qed

text \<open>
  Claim C3. On \<open>[[:alpha:]]\<close> the POSIX tokenizer emits \<open>[[:alpha:]\<close> and then
  the literal \<open>]\<close>, not one token. The branch for the nested form asks for a closing
  bracket beyond the end of the inner marker \<open>:]\<close>, but the bracket of that marker is
  itself the first one the scan accepts; the branch never emits, and the block for
  character classes of the POSIX tokenizer computes what the common one computes.
\<close>

theorem posix_nested_class_is_split:
  "TokenizeRegex PosixFormat ''[[:alpha:]]'' = Some [''[[:alpha:]'', '']'']
   \<and> Posix_class_block p char tokens cur i = class_block p char tokens cur i"
proof
  show "TokenizeRegex PosixFormat ''[[:alpha:]]'' = Some [''[[:alpha:]'', '']'']" by code_simp
  show "Posix_class_block p char tokens cur i = class_block p char tokens cur i"
    by (rule Posix_class_block_eq)
qed

section \<open>Unicode escapes in the Python tokenizer\<close>

lemma backslash_passes:
  "class_block p (CHR 0x5C) t c i = Some (Fallthrough t c)"
  "brace_block p (CHR 0x5C) t c i = Some (Fallthrough t c)"
  "suffix_quantifier_block sfx p (CHR 0x5C) t c i = Some (Fallthrough t c)"
  "group_block switch p (CHR 0x5C) t c i = Some (Fallthrough t c)"
  "single_block (CHR 0x5C = CHR '')'') (CHR 0x5C) t c i = Some (Fallthrough t c)"
  "single_block (CHR 0x5C = CHR ''|'') (CHR 0x5C) t c i = Some (Fallthrough t c)"
  "single_block (CHR 0x5C = CHR ''^'' \<or> CHR 0x5C = CHR ''$'') (CHR 0x5C) t c i = Some (Fallthrough t c)"
  "single_block (CHR 0x5C = CHR ''.'') (CHR 0x5C) t c i = Some (Fallthrough t c)"
  by (simp_all add: class_block_def brace_block_def suffix_quantifier_block_def group_block_def
      single_block_def is_quantifier_def)

lemma falls_Fallthrough: "falls (Some (Fallthrough t c)) rest = rest t c"
  by (simp add: falls_def)

lemma Python_body_backslash:
  assumes "i < length p" and "p ! i = CHR 0x5C"
  shows "Python_body p tokens cur i
           = falls (Python_escape_block p (CHR 0x5C) tokens cur i) (\<lambda>t c. Some (t, c @ [CHR 0x5C], i))"
proof -
  have "Python_body p tokens cur i
          = falls (Python_escape_block p (CHR 0x5C) tokens cur i) (\<lambda>tokens cur.
            falls (brace_block p (CHR 0x5C) tokens cur i) (\<lambda>tokens cur.
            falls (suffix_quantifier_block (CHR ''?'') p (CHR 0x5C) tokens cur i) (\<lambda>tokens cur.
            falls (group_block Python_switch p (CHR 0x5C) tokens cur i) (\<lambda>tokens cur.
            falls (single_block (CHR 0x5C = CHR '')'') (CHR 0x5C) tokens cur i) (\<lambda>tokens cur.
            falls (single_block (CHR 0x5C = CHR ''|'') (CHR 0x5C) tokens cur i) (\<lambda>tokens cur.
            falls (single_block (CHR 0x5C = CHR ''^'' \<or> CHR 0x5C = CHR ''$'') (CHR 0x5C) tokens cur i) (\<lambda>tokens cur.
            falls (single_block (CHR 0x5C = CHR ''.'') (CHR 0x5C) tokens cur i) (\<lambda>tokens cur.
            Some (tokens, cur @ [CHR 0x5C], i)))))))))"
    using assms unfolding Python_body_def
    by (simp only: byte_at_Some bind.bind_lunit backslash_passes(1) falls_Fallthrough)
  then show ?thesis by (simp only: backslash_passes falls_Fallthrough)
qed

lemma hex4_value:
  assumes "k + 4 \<le> length p"
  shows "hex_digits_at p k 4
           = (isHexDigit (p ! k) \<and> isHexDigit (p ! (k + 1)) \<and> isHexDigit (p ! (k + 2))
              \<and> isHexDigit (p ! (k + 3)))"
proof -
  have sp: "take 4 (drop k p) = [p ! k, p ! (k + 1), p ! (k + 2), p ! (k + 3)]"
    using assms by (intro span4) simp
  show ?thesis unfolding hex_digits_at_def sp using assms by simp
qed

lemma hex8_value:
  assumes "k + 8 \<le> length p"
  shows "hex_digits_at p k 8 = (hex_digits_at p k 4 \<and> hex_digits_at p (k + 4) 4)"
proof -
  have "take 8 (drop k p) = take 4 (drop k p) @ take 4 (drop 4 (drop k p))"
    using take_add [of 4 4 "drop k p"] by simp
  also have "drop 4 (drop k p) = drop (k + 4) p" by (simp add: add.commute)
  finally have "take 8 (drop k p) = take 4 (drop k p) @ take 4 (drop (k + 4) p)" .
  then show ?thesis using assms by (simp add: hex_digits_at_def)
qed

lemma hex4_chain:
  "andalso (Some (i + 6 \<le> length p))
     (andalso (hex_at p (i + 2)) (andalso (hex_at p (i + 3))
     (andalso (hex_at p (i + 4)) (hex_at p (i + 5))))) = Some (hex_digits_at p (i + 2) 4)"
proof (cases "i + 6 \<le> length p")
  case False
  then show ?thesis by (simp add: hex_digits_at_def)
next
  case True
  have e: "i + 2 + 1 = i + 3" "i + 2 + 2 = i + 4" "i + 2 + 3 = i + 5" by simp_all
  have "i + 2 + 4 \<le> length p" using True by simp
  note v = hex4_value [OF this, unfolded e]
  have h: "hex_at p (i + 2) = Some (isHexDigit (p ! (i + 2)))"
      "hex_at p (i + 3) = Some (isHexDigit (p ! (i + 3)))"
      "hex_at p (i + 4) = Some (isHexDigit (p ! (i + 4)))"
      "hex_at p (i + 5) = Some (isHexDigit (p ! (i + 5)))"
    using True by (simp_all add: hex_at_def byte_at_def)
  show ?thesis unfolding v h using True by (simp add: andalso_def)
qed

lemma hex8_chain:
  "andalso (Some (i + 10 \<le> length p))
     (andalso (hex_at p (i + 2)) (andalso (hex_at p (i + 3))
     (andalso (hex_at p (i + 4)) (andalso (hex_at p (i + 5))
     (andalso (hex_at p (i + 6)) (andalso (hex_at p (i + 7))
     (andalso (hex_at p (i + 8)) (hex_at p (i + 9))))))))) = Some (hex_digits_at p (i + 2) 8)"
proof (cases "i + 10 \<le> length p")
  case False
  then show ?thesis by (simp add: hex_digits_at_def)
next
  case True
  have e: "i + 2 + 1 = i + 3" "i + 2 + 2 = i + 4" "i + 2 + 3 = i + 5" "i + 2 + 4 = i + 6"
      "i + 6 + 1 = i + 7" "i + 6 + 2 = i + 8" "i + 6 + 3 = i + 9"
    by simp_all
  have b: "i + 2 + 4 \<le> length p" "i + 6 + 4 \<le> length p" "i + 2 + 8 \<le> length p"
    using True by simp_all
  note v1 = hex4_value [OF b(1), unfolded e]
  note v2 = hex4_value [OF b(2), unfolded e]
  note v = hex8_value [OF b(3), unfolded e]
  have h: "hex_at p (i + 2) = Some (isHexDigit (p ! (i + 2)))"
      "hex_at p (i + 3) = Some (isHexDigit (p ! (i + 3)))"
      "hex_at p (i + 4) = Some (isHexDigit (p ! (i + 4)))"
      "hex_at p (i + 5) = Some (isHexDigit (p ! (i + 5)))"
      "hex_at p (i + 6) = Some (isHexDigit (p ! (i + 6)))"
      "hex_at p (i + 7) = Some (isHexDigit (p ! (i + 7)))"
      "hex_at p (i + 8) = Some (isHexDigit (p ! (i + 8)))"
      "hex_at p (i + 9) = Some (isHexDigit (p ! (i + 9)))"
    using True by (simp_all add: hex_at_def byte_at_def)
  show ?thesis unfolding v v1 v2 h using True by (simp add: andalso_def)
qed

lemma flush_pair: "flush tokens cur = (fst (flush tokens cur), [])"
  by (simp add: flush_def)

lemma Python_escape_u:
  assumes "i + 2 < length p" and "p ! (i + 1) = CHR ''u''"
  shows "Python_escape_block p (CHR 0x5C) tokens cur i =
           (if hex_digits_at p (i + 2) 4
            then Some (Continue (fst (flush tokens cur) @ [take 6 (drop i p)]) [] (i + 5))
            else Some (Fallthrough (fst (flush tokens cur)) []))"
proof -
  have f: "flush tokens cur = (fst (flush tokens cur), [])" by (rule flush_pair)
  have s: "hex_digits_at p (i + 2) 4 \<Longrightarrow> slice p i (i + 6) = Some (take 6 (drop i p))"
    by (simp add: hex_digits_at_def slice_def)
  show ?thesis
    unfolding Python_escape_block_def hex4_chain using assms s
    by (subst f) simp
qed

lemma Python_escape_U:
  assumes "i + 2 < length p" and "p ! (i + 1) = CHR ''U''"
  shows "Python_escape_block p (CHR 0x5C) tokens cur i =
           (if hex_digits_at p (i + 2) 8
            then Some (Continue (fst (flush tokens cur) @ [take 10 (drop i p)]) [] (i + 9))
            else Some (Fallthrough (fst (flush tokens cur)) []))"
proof -
  have f: "flush tokens cur = (fst (flush tokens cur), [])" by (rule flush_pair)
  have s: "hex_digits_at p (i + 2) 8 \<Longrightarrow> slice p i (i + 10) = Some (take 10 (drop i p))"
    by (simp add: hex_digits_at_def slice_def)
  show ?thesis
    unfolding Python_escape_block_def hex8_chain using assms s
    by (subst f) simp
qed

lemma Python_escape_last:
  assumes "i + 2 = length p"
  shows "Python_escape_block p (CHR 0x5C) tokens cur i =
           Some (Continue (fst (flush tokens cur) @ [take 2 (drop i p)]) [] (i + 1))"
proof -
  have f: "flush tokens cur = (fst (flush tokens cur), [])" by (rule flush_pair)
  have s: "slice p i (i + 2) = Some (take 2 (drop i p))" using assms by (simp add: slice_def)
  have l: "i + 1 < length p" "\<not> i + 2 < length p" using assms by auto
  show ?thesis
    unfolding Python_escape_block_def using l s
    by (subst f) simp
qed

text \<open>
  The input \<open>\uzz\<close> of claim C4: the tokens are not \<open>\u\<close> followed by \<open>zz\<close>;
  the whole input is one literal run.
\<close>

theorem python_unicode_escape_counterexample:
  "TokenizeRegex PythonFormat (CHR 0x5C # ''uzz'') \<noteq> Some [CHR 0x5C # ''u'', ''zz'']
   \<and> TokenizeRegex PythonFormat (CHR 0x5C # ''uzz'') = Some [CHR 0x5C # ''uzz'']
   \<and> TokenizeRegex PythonFormat (CHR 0x5C # ''U0001'') = Some [CHR 0x5C # ''U0001'']"
  by code_simp

lemma Python_body_unicode_escape:
  assumes "i + 1 < length p" and "p ! i = CHR 0x5C"
    and "(p ! (i + 1) = CHR ''u'' \<and> n = 4) \<or> (p ! (i + 1) = CHR ''U'' \<and> n = 8)"
  shows "Python_body p tokens cur i =
          (if i + 2 = length p then
             Some (fst (flush tokens cur) @ [[CHR 0x5C, p ! (i + 1)]], [], i + 1)
           else if hex_digits_at p (i + 2) n then
             Some (fst (flush tokens cur) @ [take (n + 2) (drop i p)], [], i + n + 1)
           else Some (fst (flush tokens cur), [CHR 0x5C], i))"
proof -
  have i: "i < length p" using assms(1) by simp
  note body = Python_body_backslash [OF i assms(2), of tokens cur]
  show ?thesis
  proof (cases "i + 2 = length p")
    case True
    have "take 2 (drop i p) = [CHR 0x5C, p ! (i + 1)]" using span2 [OF assms(1)] assms(2) by simp
    then show ?thesis using True body Python_escape_last [OF True, of tokens cur]
      by (simp add: falls_def)
  next
    case False
    then have l: "i + 2 < length p" using assms(1) by simp
    from assms(3) show ?thesis
    proof
      assume u: "p ! (i + 1) = CHR ''u'' \<and> n = 4"
      then show ?thesis using False body Python_escape_u [OF l, of tokens cur]
        by (simp add: falls_def)
    next
      assume u: "p ! (i + 1) = CHR ''U'' \<and> n = 8"
      then show ?thesis using False body Python_escape_U [OF l, of tokens cur]
        by (simp add: falls_def)
    qed
  qed
qed

subsection \<open>Literal bytes and the bytes that close a literal run\<close>

lemma plain_passes:
  assumes "plain c"
  shows "class_block p c t cu i = Some (Fallthrough t cu)"
    and "Python_escape_block p c t cu i = Some (Fallthrough t cu)"
    and "brace_block p c t cu i = Some (Fallthrough t cu)"
    and "suffix_quantifier_block sfx p c t cu i = Some (Fallthrough t cu)"
    and "group_block switch p c t cu i = Some (Fallthrough t cu)"
    and "single_block (c = CHR '')'') c t cu i = Some (Fallthrough t cu)"
    and "single_block (c = CHR ''|'') c t cu i = Some (Fallthrough t cu)"
    and "single_block (c = CHR ''^'' \<or> c = CHR ''$'') c t cu i = Some (Fallthrough t cu)"
    and "single_block (c = CHR ''.'') c t cu i = Some (Fallthrough t cu)"
  using assms
  by (auto simp add: plain_def class_block_def Python_escape_block_def brace_block_def
      suffix_quantifier_block_def group_block_def single_block_def is_quantifier_def)

lemma Python_body_plain:
  assumes "i < length p" and "plain (p ! i)"
  shows "Python_body p tokens cur i = Some (tokens, cur @ [p ! i], i)"
  unfolding Python_body_def using assms(1)
  by (simp only: byte_at_Some bind.bind_lunit plain_passes [OF assms(2)] falls_Fallthrough)

lemma for_loop_plain_run:
  assumes "list_all plain (drop i p)"
  shows "for_loop Python_body p tokens cur i = Some (tokens, cur @ drop i p)"
  using assms
proof (induction "length p - i" arbitrary: i cur rule: less_induct)
  case less
  show ?case
  proof (cases "i < length p")
    case False
    then show ?thesis by (simp add: for_loop.simps [of Python_body p tokens cur i])
  next
    case True
    then have d: "drop i p = p ! i # drop (i + 1) p" by (simp add: Cons_nth_drop_Suc)
    then have pl: "plain (p ! i)" "list_all plain (drop (i + 1) p)" using less.prems by simp_all
    have "length p - (i + 1) < length p - i" using True by simp
    from less.hyps [OF this pl(2), of "cur @ [p ! i]"]
    have "for_loop Python_body p tokens (cur @ [p ! i]) (i + 1) = Some (tokens, cur @ drop i p)"
      using d by simp
    then show ?thesis
      using True Python_body_plain [OF True pl(1), of tokens cur]
      by (simp add: for_loop.simps [of Python_body p tokens cur i])
  qed
qed

lemma for_loop_unicode_escape:
  assumes "i + 1 < length p" and "p ! i = CHR 0x5C" and "p ! (i + 1) = c"
    and "(c = CHR ''u'' \<and> n = 4) \<or> (c = CHR ''U'' \<and> n = 8)"
  shows "for_loop Python_body p tokens cur i =
           (if i + 2 = length p then Some (fst (flush tokens cur) @ [[CHR 0x5C, c]], [])
            else if hex_digits_at p (i + 2) n then
              for_loop Python_body p (fst (flush tokens cur) @ [take (n + 2) (drop i p)]) [] (i + n + 2)
            else for_loop Python_body p (fst (flush tokens cur)) [CHR 0x5C, c] (i + 2))"
proof -
  have i: "i < length p" using assms(1) by simp
  have cn: "(p ! (i + 1) = CHR ''u'' \<and> n = 4) \<or> (p ! (i + 1) = CHR ''U'' \<and> n = 8)"
    using assms(3,4) by simp
  note body = Python_body_unicode_escape [OF assms(1,2) cn, of tokens cur]
  have pc: "plain c" using assms(4) by (auto simp add: plain_def)
  show ?thesis
  proof (cases "i + 2 = length p")
    case True
    then have e: "\<not> i + 1 + 1 < length p" by simp
    have "for_loop Python_body p tokens cur i
            = for_loop Python_body p (fst (flush tokens cur) @ [[CHR 0x5C, c]]) [] (i + 1 + 1)"
      using i True body assms(3) by (simp add: for_loop.simps [of Python_body p tokens cur i])
    also have "\<dots> = Some (fst (flush tokens cur) @ [[CHR 0x5C, c]], [])"
      using e by (subst for_loop.simps) simp
    finally show ?thesis using True by simp
  next
    case False
    show ?thesis
    proof (cases "hex_digits_at p (i + 2) n")
      case True
      have "for_loop Python_body p tokens cur i
              = for_loop Python_body p (fst (flush tokens cur) @ [take (n + 2) (drop i p)]) []
                  (i + n + 1 + 1)"
        using i False True body by (simp add: for_loop.simps [of Python_body p tokens cur i])
      then show ?thesis using False True by (simp add: add.assoc)
    next
      case nh: False
      have s1: "for_loop Python_body p tokens cur i
              = for_loop Python_body p (fst (flush tokens cur)) [CHR 0x5C] (i + 1)"
        using i False nh body by (simp add: for_loop.simps [of Python_body p tokens cur i])
      have "plain (p ! (i + 1))" using pc assms(3) by simp
      from Python_body_plain [OF assms(1) this, of "fst (flush tokens cur)" "[CHR 0x5C]"]
      have "for_loop Python_body p (fst (flush tokens cur)) [CHR 0x5C] (i + 1)
              = for_loop Python_body p (fst (flush tokens cur)) [CHR 0x5C, c] (i + 1 + 1)"
        using assms(1,3)
        by (simp add: for_loop.simps [of Python_body p "fst (flush tokens cur)" "[CHR 0x5C]" "Suc i"])
      then show ?thesis using s1 False nh by (simp add: add.assoc)
    qed
  qed
qed

lemma Python_prepass_backslash: "Python_prepass (CHR 0x5C # s) = Some ([], CHR 0x5C # s)"
  by (cases s) (simp_all add: Python_prepass_def Python_raw_prefix_def Python_inline_flags_def)

lemma Python_tokenize_backslash:
  "TokenizeRegex PythonFormat (CHR 0x5C # s)
     = for_loop Python_body (CHR 0x5C # s) [] [] 0 \<bind> (\<lambda>(tokens, cur). Some (fst (flush tokens cur)))"
  by (simp add: Python_TokenizeRegex_def Python_prepass_backslash)

lemma closer_passes:
  assumes "d \<in> set '')|^$.''"
  shows "class_block p d t cu i = Some (Fallthrough t cu)"
    and "Python_escape_block p d t cu i = Some (Fallthrough t cu)"
    and "brace_block p d t cu i = Some (Fallthrough t cu)"
    and "suffix_quantifier_block sfx p d t cu i = Some (Fallthrough t cu)"
    and "group_block switch p d t cu i = Some (Fallthrough t cu)"
  using assms
  by (auto simp add: class_block_def Python_escape_block_def brace_block_def
      suffix_quantifier_block_def group_block_def is_quantifier_def)

lemma single_block_hit:
  "string_of_byte d = [d] \<Longrightarrow>
   single_block True d tokens cur i = Some (Continue (fst (flush tokens cur) @ [[d]]) [] i)"
  by (simp add: single_block_def flush_def)

lemma single_block_miss: "single_block False d tokens cur i = Some (Fallthrough tokens cur)"
  by (simp add: single_block_def)

lemma Python_body_closer:
  assumes "i < length p" and "p ! i = d" and "d \<in> set '')|^$.''"
  shows "Python_body p tokens cur i = Some (fst (flush tokens cur) @ [[d]], [], i)"
proof -
  have s: "string_of_byte d = [d]" using assms(3) by (auto simp add: string_of_byte_meta)
  have "Python_body p tokens cur i =
          falls (single_block (d = CHR '')'') d tokens cur i) (\<lambda>tokens cur.
          falls (single_block (d = CHR ''|'') d tokens cur i) (\<lambda>tokens cur.
          falls (single_block (d = CHR ''^'' \<or> d = CHR ''$'') d tokens cur i) (\<lambda>tokens cur.
          falls (single_block (d = CHR ''.'') d tokens cur i) (\<lambda>tokens cur.
          Some (tokens, cur @ [d], i)))))"
    unfolding Python_body_def using assms(1,2)
    by (simp only: byte_at_Some bind.bind_lunit closer_passes [OF assms(3)] falls_Fallthrough)
  moreover have "d = CHR '')'' \<or> d = CHR ''|'' \<or> d = CHR ''^'' \<or> d = CHR ''$'' \<or> d = CHR ''.''"
    using assms(3) by auto
  ultimately show ?thesis
    using single_block_hit [OF s, of tokens cur i]
    by (auto simp add: single_block_miss falls_def)
qed

lemma for_loop_step:
  assumes "i < length p" and "body p tokens cur i = Some (t, c, j)"
  shows "for_loop body p tokens cur i = for_loop body p t c (j + 1)"
  using assms by (subst for_loop.simps) simp

lemma for_loop_plain_prefix:
  assumes "list_all plain pre"
  shows "for_loop Python_body (front @ pre @ s) tokens cur (length front)
           = for_loop Python_body (front @ pre @ s) tokens (cur @ pre) (length front + length pre)"
  using assms
proof (induction pre arbitrary: front cur)
  case Nil
  then show ?case by simp
next
  case (Cons x xs)
  let ?p = "front @ (x # xs) @ s"
  have l: "length front < length ?p" by simp
  have x: "?p ! length front = x" by simp
  have px: "plain x" and pxs: "list_all plain xs" using Cons.prems by simp_all
  have "for_loop Python_body ?p tokens cur (length front)
          = for_loop Python_body ?p tokens (cur @ [x]) (length front + 1)"
  proof -
    have "plain (?p ! length front)" using px x by simp
    from for_loop_step [of "length front" ?p Python_body, OF l Python_body_plain [OF l this, of tokens cur]]
    show ?thesis using x by simp
  qed
  also have "\<dots> = for_loop Python_body ((front @ [x]) @ xs @ s) tokens (cur @ [x]) (length (front @ [x]))"
    by simp
  also have "\<dots> = for_loop Python_body ((front @ [x]) @ xs @ s) tokens ((cur @ [x]) @ xs)
                      (length (front @ [x]) + length xs)"
    by (rule Cons.IH [OF pxs])
  finally show ?case by simp
qed

lemma for_loop_closer:
  assumes "i < length p" and "p ! i = d" and "d \<in> set '')|^$.''"
  shows "for_loop Python_body p tokens cur i
           = for_loop Python_body p (fst (flush tokens cur) @ [[d]]) [] (i + 1)"
  using assms(1) Python_body_closer [OF assms, of tokens cur]
  by (simp add: for_loop.simps [of Python_body p tokens cur i])

lemma closer_no_hex: "d \<in> set '')|^$.'' \<Longrightarrow> \<not> isHexDigit d"
  by (auto simp add: isHexDigit_def)

lemma hex_digits_at_shift:
  "hex_digits_at (front @ rest) (length front) n = hex_digits_at rest 0 n"
  by (simp add: hex_digits_at_def)

lemma Python_tokenize_after_prepass:
  assumes "Python_prepass pattern = Some (t0, pre @ s)" and "list_all plain pre"
  shows "TokenizeRegex PythonFormat pattern =
           for_loop Python_body (pre @ s) t0 pre (length pre)
             \<bind> (\<lambda>(tokens, cur). Some (fst (flush tokens cur)))"
  using assms(1) for_loop_plain_prefix [OF assms(2), of "[]" s t0 "[]"]
  by (simp add: Python_TokenizeRegex_def)

lemma hex_digits_plain: "isHexDigit c \<Longrightarrow> plain c"
  by (auto simp add: isHexDigit_def plain_def)

lemma flush_flush: "fst (flush (fst (flush t c)) []) = fst (flush t c)"
  by (simp add: flush_def)

text \<open>
  Claim C4, as the code has it, for \<open>\u\<close> with \<open>n = 4\<close> and for \<open>\U\<close> with
  \<open>n = 8\<close>. When the loop stands on the backslash of \<open>\u\<close>, the pending literal run is
  flushed, and
  \<^item> if \<open>\u\<close> ends the pattern, the two-character token \<open>\u\<close> is emitted;
  \<^item> if \<open>n\<close> hex digits follow, they are emitted with \<open>\u\<close> as one token of
    \<open>n + 2\<close> characters;
  \<^item> otherwise no token is emitted for the escape: the two bytes \<open>\u\<close> become the pending
    literal run and the loop goes on behind them. When the next byte is one of
    \<open>) | ^ $ .\<close>, that run is closed at once and the two-character token \<open>\u\<close> is
    emitted, followed by the token of that byte.

  For a whole pattern that, after the prefix and flag scan, is a run of literal bytes, then
  \<open>\u\<close>, then literal bytes only up to its end: with \<open>n\<close> hex digits after \<open>\u\<close>
  the tokens are the run, the escape of \<open>n + 2\<close> characters and the remaining bytes;
  without them \<open>\u\<close> and all the bytes behind it are one token, as in \<open>\uzz\<close>. With
  one of \<open>) | ^ $ .\<close> right after \<open>\u\<close> the tokens are the run, \<open>\u\<close>, that byte
  and the remaining bytes, as in \<open>\u.\<close>.
\<close>

theorem python_unicode_escape_tokens:
  assumes "(c = CHR ''u'' \<and> n = 4) \<or> (c = CHR ''U'' \<and> n = 8)"
  shows "(i + 1 < length p \<and> p ! i = CHR 0x5C \<and> p ! (i + 1) = c \<longrightarrow>
           for_loop Python_body p tokens cur i =
             (if i + 2 = length p then Some (fst (flush tokens cur) @ [[CHR 0x5C, c]], [])
              else if hex_digits_at p (i + 2) n then
                for_loop Python_body p (fst (flush tokens cur) @ [take (n + 2) (drop i p)]) []
                  (i + n + 2)
              else if p ! (i + 2) \<in> set '')|^$.'' then
                for_loop Python_body p (fst (flush tokens cur) @ [[CHR 0x5C, c], [p ! (i + 2)]]) []
                  (i + 3)
              else for_loop Python_body p (fst (flush tokens cur)) [CHR 0x5C, c] (i + 2)))
         \<and> (Python_prepass pattern = Some (t0, pre @ CHR 0x5C # c # rest)
              \<and> list_all plain pre \<and> list_all plain rest \<longrightarrow>
             TokenizeRegex PythonFormat pattern =
               Some (if hex_digits_at rest 0 n
                     then fst (flush (fst (flush t0 pre) @ [CHR 0x5C # c # take n rest]) (drop n rest))
                     else fst (flush t0 pre) @ [CHR 0x5C # c # rest]))
         \<and> (Python_prepass pattern = Some (t0, pre @ CHR 0x5C # c # d # rest)
              \<and> list_all plain pre \<and> list_all plain rest \<and> d \<in> set '')|^$.'' \<longrightarrow>
             TokenizeRegex PythonFormat pattern =
               Some (fst (flush (fst (flush t0 pre) @ [[CHR 0x5C, c], [d]]) rest)))"
proof -
  have n: "0 < n" using assms by auto
  have loop: "for_loop Python_body p tokens cur i =
             (if i + 2 = length p then Some (fst (flush tokens cur) @ [[CHR 0x5C, c]], [])
              else if hex_digits_at p (i + 2) n then
                for_loop Python_body p (fst (flush tokens cur) @ [take (n + 2) (drop i p)]) []
                  (i + n + 2)
              else if p ! (i + 2) \<in> set '')|^$.'' then
                for_loop Python_body p (fst (flush tokens cur) @ [[CHR 0x5C, c], [p ! (i + 2)]]) []
                  (i + 3)
              else for_loop Python_body p (fst (flush tokens cur)) [CHR 0x5C, c] (i + 2))"
    if h: "i + 1 < length p" "p ! i = CHR 0x5C" "p ! (i + 1) = c" for p tokens cur i
  proof (cases "i + 2 < length p \<and> \<not> hex_digits_at p (i + 2) n \<and> p ! (i + 2) \<in> set '')|^$.''")
    case False
    then show ?thesis using for_loop_unicode_escape [OF h assms, of tokens cur] h(1) by auto
  next
    case True
    then have l: "i + 2 < length p" and d: "p ! (i + 2) \<in> set '')|^$.''" by simp_all
    have step: "for_loop Python_body p (fst (flush tokens cur)) [CHR 0x5C, c] (i + 2)
            = for_loop Python_body p (fst (flush tokens cur) @ [[CHR 0x5C, c], [p ! (i + 2)]]) []
                (i + 2 + 1)"
      using for_loop_closer [OF l refl d, of "fst (flush tokens cur)" "[CHR 0x5C, c]"]
      by (simp add: flush_def)
    show ?thesis
      using step for_loop_unicode_escape [OF h assms, of tokens cur] True
      by (simp add: numeral_3_eq_3)
  qed
  have whole: "TokenizeRegex PythonFormat pattern =
               Some (if hex_digits_at rest 0 n
                     then fst (flush (fst (flush t0 pre) @ [CHR 0x5C # c # take n rest]) (drop n rest))
                     else fst (flush t0 pre) @ [CHR 0x5C # c # rest])"
    if pp: "Python_prepass pattern = Some (t0, pre @ CHR 0x5C # c # rest)"
      and pre: "list_all plain pre" and rest: "list_all plain rest"
  proof -
    let ?p = "pre @ CHR 0x5C # c # rest"
    let ?i = "length pre"
    let ?F = "fst (flush t0 pre)"
    have h: "?i + 1 < length ?p" "?p ! ?i = CHR 0x5C" "?p ! (?i + 1) = c"
      by (simp_all add: nth_append)
    have hx: "hex_digits_at ?p (?i + 2) n = hex_digits_at rest 0 n"
      using hex_digits_at_shift [of "pre @ [CHR 0x5C, c]" rest n] by simp
    note tk = Python_tokenize_after_prepass [OF pp pre]
    note lp = for_loop_unicode_escape [OF h assms, of t0 pre, unfolded hx]
    show ?thesis
    proof (cases "rest = []")
      case True
      then have "\<not> hex_digits_at rest 0 n" using n by (simp add: hex_digits_at_def)
      then show ?thesis using tk lp True by (simp add: flush_def)
    next
      case ne: False
      then have l: "?i + 2 \<noteq> length ?p" by simp
      show ?thesis
      proof (cases "hex_digits_at rest 0 n")
        case True
        then have nl: "n \<le> length rest" by (simp add: hex_digits_at_def)
        have t: "take (n + 2) (drop ?i ?p) = CHR 0x5C # c # take n rest" by simp
        have dr: "drop (?i + n + 2) ?p = drop n rest" by simp
        have "list_all plain (drop (?i + n + 2) ?p)"
          unfolding dr using rest by (simp add: list_all_iff) (meson in_set_dropD)
        from for_loop_plain_run [OF this, of "?F @ [CHR 0x5C # c # take n rest]" "[]"]
        have "for_loop Python_body ?p (?F @ [CHR 0x5C # c # take n rest]) [] (?i + n + 2)
                = Some (?F @ [CHR 0x5C # c # take n rest], drop n rest)"
          unfolding dr by simp
        then show ?thesis using tk lp l True unfolding t by simp
      next
        case False
        have dr: "drop (?i + 2) ?p = rest" by simp
        have "list_all plain (drop (?i + 2) ?p)" unfolding dr by (rule rest)
        from for_loop_plain_run [OF this, of ?F "[CHR 0x5C, c]"]
        have "for_loop Python_body ?p ?F [CHR 0x5C, c] (?i + 2) = Some (?F, CHR 0x5C # c # rest)"
          unfolding dr by simp
        then show ?thesis using tk lp l False by (simp add: flush_def)
      qed
    qed
  qed
  have closer: "TokenizeRegex PythonFormat pattern =
               Some (fst (flush (fst (flush t0 pre) @ [[CHR 0x5C, c], [d]]) rest))"
    if pp: "Python_prepass pattern = Some (t0, pre @ CHR 0x5C # c # d # rest)"
      and pre: "list_all plain pre" and rest: "list_all plain rest" and d: "d \<in> set '')|^$.''"
  proof -
    let ?p = "pre @ CHR 0x5C # c # d # rest"
    let ?i = "length pre"
    let ?F = "fst (flush t0 pre)"
    have h: "?i + 1 < length ?p" "?p ! ?i = CHR 0x5C" "?p ! (?i + 1) = c"
      by (simp_all add: nth_append)
    have l: "?i + 2 \<noteq> length ?p" by simp
    have pd: "?p ! (?i + 2) = d" by (simp add: nth_append)
    have "\<not> hex_digits_at (d # rest) 0 n"
      using closer_no_hex [OF d] n by (cases n) (simp_all add: hex_digits_at_def)
    then have hx: "\<not> hex_digits_at ?p (?i + 2) n"
      using hex_digits_at_shift [of "pre @ [CHR 0x5C, c]" "d # rest" n] by simp
    have dr: "drop (?i + 3) ?p = rest" by simp
    have "list_all plain (drop (?i + 3) ?p)" unfolding dr by (rule rest)
    from for_loop_plain_run [OF this, of "?F @ [[CHR 0x5C, c], [d]]" "[]"]
    have "for_loop Python_body ?p (?F @ [[CHR 0x5C, c], [d]]) [] (?i + 3)
            = Some (?F @ [[CHR 0x5C, c], [d]], rest)"
      unfolding dr by simp
    then show ?thesis
      using Python_tokenize_after_prepass [OF pp pre] loop [OF h, of t0 pre] l hx pd d
      by simp
  qed
  show ?thesis using loop whole closer by blast
qed

theorem python_unicode_escape_tokens_witness:
  "TokenizeRegex PythonFormat (''ab'' @ CHR 0x5C # ''uzz'') = Some [''ab'', CHR 0x5C # ''uzz'']
   \<and> TokenizeRegex PythonFormat (CHR 0x5C # ''u00e9z'') = Some [CHR 0x5C # ''u00e9'', ''z'']
   \<and> TokenizeRegex PythonFormat (CHR 0x5C # ''u.z'') = Some [CHR 0x5C # ''u'', ''.'', ''z'']"
proof (intro conjI)
  have p: "Python_prepass (''ab'' @ CHR 0x5C # ''uzz'') = Some ([], ''ab'' @ CHR 0x5C # ''uzz'')"
    by code_simp
  show "TokenizeRegex PythonFormat (''ab'' @ CHR 0x5C # ''uzz'') = Some [''ab'', CHR 0x5C # ''uzz'']"
    using python_unicode_escape_tokens [of "CHR ''u''" 4 0 "[]" "[]" "[]"
        "''ab'' @ CHR 0x5C # ''uzz''" "[]" "''ab''" "''zz''" "CHR ''.''"] p
    by (simp add: hex_digits_at_def isHexDigit_def flush_def plain_def)
  have q: "Python_prepass (CHR 0x5C # ''u00e9z'') = Some ([], [] @ CHR 0x5C # ''u00e9z'')"
    by code_simp
  show "TokenizeRegex PythonFormat (CHR 0x5C # ''u00e9z'') = Some [CHR 0x5C # ''u00e9'', ''z'']"
    using python_unicode_escape_tokens [of "CHR ''u''" 4 0 "[]" "[]" "[]"
        "CHR 0x5C # ''u00e9z''" "[]" "[]" "''00e9z''" "CHR ''.''"] q
    by (simp add: hex_digits_at_def isHexDigit_def flush_def plain_def)
  have r: "Python_prepass (CHR 0x5C # ''u.z'') = Some ([], [] @ CHR 0x5C # ''u.z'')"
    by code_simp
  show "TokenizeRegex PythonFormat (CHR 0x5C # ''u.z'') = Some [CHR 0x5C # ''u'', ''.'', ''z'']"
    using python_unicode_escape_tokens [of "CHR ''u''" 4 0 "[]" "[]" "[]"
        "CHR 0x5C # ''u.z''" "[]" "[]" "''z''" "CHR ''.''"] r
    by (simp add: hex_digits_at_def isHexDigit_def flush_def plain_def)
qed

section \<open>Group headers and quantifier suffixes by dialect\<close>

text \<open>
  The input \<open>(?<name>abc)\<close> of claim C5 under the baseline tokenizer: the token after
  \<open>(\<close> is the quantifier \<open>?\<close>, not a literal run that starts with \<open>?<name>\<close>.
\<close>

theorem baseline_named_group_counterexample:
  "TokenizeRegex GoFormat ''(?<name>abc)'' \<noteq> Some [''('', ''?<name>'', ''abc'', '')'']
   \<and> TokenizeRegex GoFormat ''(?<name>abc)'' \<noteq> Some [''('', ''?<name>abc'', '')'']
   \<and> the (TokenizeRegex GoFormat ''(?<name>abc)'') ! 1 = ''?''"
  by code_simp

text \<open>
  Claim C5, as the code has it. On \<open>(?<name>abc)\<close> the baseline tokenizer emits the
  bare group token \<open>(\<close>, then \<open>?\<close> as a simple quantifier, then the literal run
  \<open><name>abc\<close>, then \<open>)\<close>; it recognizes a named group in the form
  \<open>(?P<name>\<close> only. The PCRE tokenizer yields \<open>(?<name>\<close>, \<open>abc\<close>, \<open>)\<close>.
\<close>

theorem named_group_divergence:
  "TokenizeRegex GoFormat ''(?<name>abc)'' = Some [''('', ''?'', ''<name>abc'', '')'']
   \<and> TokenizeRegex PcreFormat ''(?<name>abc)'' = Some [''(?<name>'', ''abc'', '')'']
   \<and> TokenizeRegex GoFormat ''(?P<name>abc)'' = Some [''(?P<name>'', ''abc'', '')'']"
  by code_simp

lemma quantifier_passes:
  assumes "is_quantifier c"
  shows "class_block p c t cu i = Some (Fallthrough t cu)"
    and "Posix_class_block p c t cu i = Some (Fallthrough t cu)"
    and "escape_block p c t cu i = Some (Fallthrough t cu)"
    and "brace_block p c t cu i = Some (Fallthrough t cu)"
  using assms
  by (auto simp add: is_quantifier_def class_block_def Posix_class_block_def escape_block_def
      brace_block_def)

lemma falls_Continue: "falls (Some (Continue t c j)) rest = Some (t, c, j)"
  by (simp add: falls_def)

lemma suffix_quantifier_value:
  assumes "i < length p" and "is_quantifier (p ! i)"
  shows "suffix_quantifier_block sfx p (p ! i) tokens cur i =
           (if i + 1 < length p \<and> p ! (i + 1) = sfx
            then Some (Continue (fst (flush tokens cur) @ [[p ! i, sfx]]) [] (i + 1))
            else Some (Continue (fst (flush tokens cur) @ [[p ! i]]) [] i))"
proof -
  have f: "flush tokens cur = (fst (flush tokens cur), [])" by (rule flush_pair)
  show ?thesis
    unfolding suffix_quantifier_block_def using assms
    by (subst f) (auto simp add: string_of_byte_quantifier)
qed

lemma plain_quantifier_value:
  assumes "is_quantifier c"
  shows "single_block (is_quantifier c) c tokens cur i
           = Some (Continue (fst (flush tokens cur) @ [[c]]) [] i)"
proof -
  have f: "flush tokens cur = (fst (flush tokens cur), [])" by (rule flush_pair)
  show ?thesis
    unfolding single_block_def using assms
    by (subst f) (simp add: string_of_byte_quantifier)
qed

text \<open>
  Claim C6. PCRE takes a \<open>+\<close> after a simple quantifier into the token, JS takes a
  \<open>?\<close>, POSIX takes no suffix: \<open>a++\<close> under PCRE is \<open>a\<close>, \<open>++\<close>;
  \<open>a+?\<close> under JS is \<open>a\<close>, \<open>+?\<close>; \<open>a+\<close> under POSIX is \<open>a\<close>,
  \<open>+\<close>. The other suffix is a token of its own in each dialect. In general, at a
  simple quantifier one iteration of the loop emits the quantifier with the following
  \<open>+\<close> under PCRE, with the following \<open>?\<close> under JS, and alone under POSIX.
\<close>

theorem quantifier_suffix_absorption:
  "TokenizeRegex PcreFormat ''a++'' = Some [''a'', ''++'']
   \<and> TokenizeRegex JsFormat ''a+?'' = Some [''a'', ''+?'']
   \<and> TokenizeRegex PosixFormat ''a+'' = Some [''a'', ''+'']
   \<and> TokenizeRegex PosixFormat ''a++'' = Some [''a'', ''+'', ''+'']
   \<and> TokenizeRegex PosixFormat ''a+?'' = Some [''a'', ''+'', ''?'']
   \<and> TokenizeRegex PcreFormat ''a+?'' = Some [''a'', ''+'', ''?'']
   \<and> TokenizeRegex JsFormat ''a++'' = Some [''a'', ''+'', ''+'']
   \<and> (i < length p \<and> is_quantifier (p ! i) \<longrightarrow>
        Pcre_body p tokens cur i =
          (if i + 1 < length p \<and> p ! (i + 1) = CHR ''+''
           then Some (fst (flush tokens cur) @ [[p ! i, CHR ''+'']], [], i + 1)
           else Some (fst (flush tokens cur) @ [[p ! i]], [], i))
        \<and> Js_body p tokens cur i =
          (if i + 1 < length p \<and> p ! (i + 1) = CHR ''?''
           then Some (fst (flush tokens cur) @ [[p ! i, CHR ''?'']], [], i + 1)
           else Some (fst (flush tokens cur) @ [[p ! i]], [], i))
        \<and> Posix_body p tokens cur i = Some (fst (flush tokens cur) @ [[p ! i]], [], i))"
proof (intro conjI impI)
  show "TokenizeRegex PcreFormat ''a++'' = Some [''a'', ''++'']" by code_simp
  show "TokenizeRegex JsFormat ''a+?'' = Some [''a'', ''+?'']" by code_simp
  show "TokenizeRegex PosixFormat ''a+'' = Some [''a'', ''+'']" by code_simp
  show "TokenizeRegex PosixFormat ''a++'' = Some [''a'', ''+'', ''+'']" by code_simp
  show "TokenizeRegex PosixFormat ''a+?'' = Some [''a'', ''+'', ''?'']" by code_simp
  show "TokenizeRegex PcreFormat ''a+?'' = Some [''a'', ''+'', ''?'']" by code_simp
  show "TokenizeRegex JsFormat ''a++'' = Some [''a'', ''+'', ''+'']" by code_simp
next
  assume a: "i < length p \<and> is_quantifier (p ! i)"
  then have i: "i < length p" and q: "is_quantifier (p ! i)" by simp_all
  note pass = quantifier_passes [OF q]
  show "Pcre_body p tokens cur i =
          (if i + 1 < length p \<and> p ! (i + 1) = CHR ''+''
           then Some (fst (flush tokens cur) @ [[p ! i, CHR ''+'']], [], i + 1)
           else Some (fst (flush tokens cur) @ [[p ! i]], [], i))"
    unfolding Pcre_body_def using i
    by (simp only: byte_at_Some bind.bind_lunit pass falls_Fallthrough
        suffix_quantifier_value [OF i q] falls_Continue if_distrib [of "\<lambda>r. falls r _"] cong: if_cong)
  show "Js_body p tokens cur i =
          (if i + 1 < length p \<and> p ! (i + 1) = CHR ''?''
           then Some (fst (flush tokens cur) @ [[p ! i, CHR ''?'']], [], i + 1)
           else Some (fst (flush tokens cur) @ [[p ! i]], [], i))"
    unfolding Js_body_def using i
    by (simp only: byte_at_Some bind.bind_lunit pass falls_Fallthrough
        suffix_quantifier_value [OF i q] falls_Continue if_distrib [of "\<lambda>r. falls r _"] cong: if_cong)
  show "Posix_body p tokens cur i = Some (fst (flush tokens cur) @ [[p ! i]], [], i)"
    unfolding Posix_body_def using i
    by (simp only: byte_at_Some bind.bind_lunit pass falls_Fallthrough
        plain_quantifier_value [OF q] falls_Continue)
qed

theorem quantifier_suffix_absorption_witness:
  "Pcre_body ''a++'' [] ''a'' 1 = Some ([''a'', ''++''], [], 2)
   \<and> Js_body ''a++'' [] ''a'' 1 = Some ([''a'', ''+''], [], 1)
   \<and> Posix_body ''a++'' [] ''a'' 1 = Some ([''a'', ''+''], [], 1)"
  using quantifier_suffix_absorption [of 1 "''a++''" "[]" "''a''"]
  by (simp add: is_quantifier_def flush_def)

section \<open>The feature tables\<close>

lemma supportedFeatures_distinct: "distinct (map fst (supportedFeatures fmt))"
  by (cases fmt)
    (simp_all add: FeatureLookahead_def FeatureLookbehind_def FeatureNamedGroup_def
      FeatureAtomicGroup_def FeatureConditional_def FeaturePossessive_def FeatureUnicodeClass_def
      FeatureRecursion_def FeatureBackreference_def FeatureNamedBackref_def)

text \<open>
  Claim C8. \<open>HasFeature\<close> is a function of the dialect and the key alone: it holds
  exactly when the dialect's table lists the key with \<open>true\<close>, and a key that is in no
  table gives \<open>false\<close>. PCRE has lookbehind, POSIX has not, and the baseline dialect has
  no atomic groups.
\<close>

theorem feature_table_fixed:
  "HasFeature PcreFormat FeatureLookbehind = True
   \<and> HasFeature PosixFormat FeatureLookbehind = False
   \<and> HasFeature GoFormat FeatureAtomicGroup = False
   \<and> (HasFeature fmt feature \<longleftrightarrow> (feature, True) \<in> set (supportedFeatures fmt))
   \<and> (feature \<notin> fst ` set (supportedFeatures fmt) \<longrightarrow> HasFeature fmt feature = False)"
proof (intro conjI)
  show "HasFeature PcreFormat FeatureLookbehind = True"
    by (simp add: HasFeature_def FeatureLookahead_def FeatureLookbehind_def)
  show "HasFeature PosixFormat FeatureLookbehind = False"
    by (simp add: HasFeature_def FeatureLookahead_def FeatureLookbehind_def)
  show "HasFeature GoFormat FeatureAtomicGroup = False"
    by (simp add: HasFeature_def FeatureLookahead_def FeatureLookbehind_def FeatureNamedGroup_def
        FeatureAtomicGroup_def)
  show "HasFeature fmt feature \<longleftrightarrow> (feature, True) \<in> set (supportedFeatures fmt)"
  proof (cases "map_of (supportedFeatures fmt) feature")
    case None
    then have "feature \<notin> fst ` set (supportedFeatures fmt)" by (simp add: map_of_eq_None_iff)
    then have "(feature, True) \<notin> set (supportedFeatures fmt)" by force
    then show ?thesis using None by (simp add: HasFeature_def)
  next
    case (Some b)
    then have in_tbl: "(feature, b) \<in> set (supportedFeatures fmt)" by (rule map_of_SomeD)
    show ?thesis
    proof (cases b)
      case True
      then show ?thesis using Some in_tbl by (simp add: HasFeature_def)
    next
      case False
      have "(feature, True) \<notin> set (supportedFeatures fmt)"
      proof
        assume "(feature, True) \<in> set (supportedFeatures fmt)"
        then have "map_of (supportedFeatures fmt) feature = Some True"
          using supportedFeatures_distinct [of fmt] by simp
        then show False using Some False by simp
      qed
      then show ?thesis using Some False by (simp add: HasFeature_def)
    qed
  qed
  show "feature \<notin> fst ` set (supportedFeatures fmt) \<longrightarrow> HasFeature fmt feature = False"
    by (simp add: HasFeature_def map_of_eq_None_iff [symmetric])
qed

theorem feature_table_fixed_witness:
  "HasFeature JsFormat ''nonexistent'' = False \<and> HasFeature PcreFormat ''lookbehind'' = True"
  using feature_table_fixed [of JsFormat "''nonexistent''"]
  by (simp add: FeatureLookahead_def FeatureLookbehind_def FeatureNamedGroup_def
      FeatureAtomicGroup_def FeatureConditional_def FeaturePossessive_def FeatureUnicodeClass_def
      FeatureRecursion_def FeatureBackreference_def FeatureNamedBackref_def)

section \<open>Explanations that shadow later cases\<close>

lemma flag_scan_value:
  assumes "\<forall>k \<in> set ks. k < length s"
  shows "flag_scan s ks = Some (\<forall>k \<in> set ks. is_inline_flag (s ! k))"
  using assms by (induction ks) auto

lemma HasPrefix_Cons: "HasPrefix s (c # cs) \<longleftrightarrow> s \<noteq> [] \<and> hd s = c \<and> HasPrefix (tl s) cs"
  by (cases s) (auto simp: HasPrefix_def)

lemma Python_group_unknown:
  assumes "HasPrefix token ''(?''" and "HasSuffix token '')''" and "length token > 3"
    and "2 \<le> k" and "k < length token - 1" and "\<not> is_inline_flag (token ! k)"
  shows "Python_ExplainToken token = Some (''Unknown token: '' @ token)"
proof -
  have raw: "\<not> HasPrefix token [CHR ''r'', CHR 0x27]" "\<not> HasPrefix token [CHR ''r'', CHR 0x22]"
      "\<not> HasPrefix token [CHR ''R'', CHR 0x27]" "\<not> HasPrefix token [CHR ''R'', CHR 0x22]"
    using assms(1) by (auto simp: HasPrefix_Cons)
  have "\<forall>j \<in> set [2 ..< length token - 1]. j < length token" by auto
  then have "flag_scan token [2 ..< length token - 1]
               = Some (\<forall>j \<in> set [2 ..< length token - 1]. is_inline_flag (token ! j))"
    by (rule flag_scan_value)
  moreover have "\<not> (\<forall>j \<in> set [2 ..< length token - 1]. is_inline_flag (token ! j))"
    using assms(4,5,6) by auto
  ultimately have "flag_scan token [2 ..< length token - 1] = Some False" by simp
  then show ?thesis using raw assms(1,2,3) by (simp add: Python_ExplainToken_def)
qed

lemma named_backref_shape:
  assumes "HasPrefix token ''(?P=''" and "HasSuffix token '')''"
  shows "HasPrefix token ''(?''" and "length token > 3" and "2 < length token - 1"
    and "token ! 2 = CHR ''P''"
proof -
  from assms(1) obtain rest where t: "token = ''(?P='' @ rest"
    by (metis HasPrefix_def append_take_drop_id)
  have "rest \<noteq> []"
  proof
    assume "rest = []"
    then have "token = ''(?P=''" using t by simp
    then show False using assms(2) by (simp add: HasSuffix_def)
  qed
  then have "length token > 4" using t by (cases rest) auto
  then show "length token > 3" and "2 < length token - 1" by auto
  show "HasPrefix token ''(?''" using t by (simp add: HasPrefix_def)
  show "token ! 2 = CHR ''P''" using t by simp
qed

text \<open>
  Claim C9. In the Python explainer, a token that starts with \<open>(?\<close>, ends with
  \<open>)\<close>, is longer than 3 and has a byte that is no inline-flag letter between the
  \<open>(?\<close> and the \<open>)\<close> is explained as \<open>Unknown token: \<close> followed by the
  token. Every token of the form \<open>(?P=...)\<close> is such a token, so the case for named
  backreferences further down is never reached; the Python tokenizer produces such tokens.
\<close>

theorem python_group_tokens_unknown:
  "(HasPrefix token ''(?'' \<and> HasSuffix token '')'' \<and> length token > 3
      \<and> 2 \<le> k \<and> k < length token - 1 \<and> \<not> is_inline_flag (token ! k)
     \<longrightarrow> Python_ExplainToken token = Some (''Unknown token: '' @ token))
   \<and> (HasPrefix token ''(?P='' \<and> HasSuffix token '')''
     \<longrightarrow> Python_ExplainToken token = Some (''Unknown token: '' @ token))
   \<and> TokenizeRegex PythonFormat ''(?P<n>a)(?P=n)'' = Some [''(?P<n>'', ''a'', '')'', ''(?P=n)'']
   \<and> Python_ExplainToken ''(?P=name)'' = Some ''Unknown token: (?P=name)''"
proof (intro conjI impI)
  assume "HasPrefix token ''(?'' \<and> HasSuffix token '')'' \<and> length token > 3
      \<and> 2 \<le> k \<and> k < length token - 1 \<and> \<not> is_inline_flag (token ! k)"
  then show "Python_ExplainToken token = Some (''Unknown token: '' @ token)"
    using Python_group_unknown [of token k] by blast
next
  assume a: "HasPrefix token ''(?P='' \<and> HasSuffix token '')''"
  then have s: "HasPrefix token ''(?''" "length token > 3" "2 < length token - 1"
      "token ! 2 = CHR ''P''"
    using named_backref_shape [of token] by blast+
  have "\<not> is_inline_flag (token ! 2)" using s(4) by (simp add: is_inline_flag_def)
  then show "Python_ExplainToken token = Some (''Unknown token: '' @ token)"
    using Python_group_unknown [of token 2] a s by simp
next
  show "TokenizeRegex PythonFormat ''(?P<n>a)(?P=n)'' = Some [''(?P<n>'', ''a'', '')'', ''(?P=n)'']"
    by code_simp
  show "Python_ExplainToken ''(?P=name)'' = Some ''Unknown token: (?P=name)''"
    by code_simp
qed

theorem python_group_tokens_unknown_witness:
  "Python_ExplainToken ''(?P=name)'' = Some (''Unknown token: '' @ ''(?P=name)'')
   \<and> Python_ExplainToken ''(?#note)'' = Some (''Unknown token: '' @ ''(?#note)'')"
proof
  show "Python_ExplainToken ''(?P=name)'' = Some (''Unknown token: '' @ ''(?P=name)'')"
    using python_group_tokens_unknown [of "''(?P=name)''" 2]
    by (simp add: HasPrefix_def HasSuffix_def)
  show "Python_ExplainToken ''(?#note)'' = Some (''Unknown token: '' @ ''(?#note)'')"
    using python_group_tokens_unknown [of "''(?#note)''" 2]
    by (simp add: HasPrefix_def HasSuffix_def is_inline_flag_def)
qed

lemma range_runes_ascii:
  "list_all (\<lambda>c. of_char c < (128::nat)) s \<Longrightarrow> range_runes s = map (\<lambda>c. [c]) s"
  by (induction s) (simp_all add: rune_width_def Let_def)

text \<open>
  Claim C10. The JS explainer reads every token that starts with \<open>/\<close> as a flags
  marker: the result is \<open>explainJsFlags\<close> of the rest, which is
  \<open>No flags specified\<close> for the bare \<open>/\<close> and otherwise explains each character
  as a flag. That holds for a literal token of the pattern body as well, such as the
  \<open>/x\<close> that the JS tokenizer emits for \<open>(/x)\<close>.
\<close>

theorem js_slash_tokens_are_flags:
  "(HasPrefix token ''/'' \<longrightarrow> Js_ExplainToken token = Some (explainJsFlags (drop 1 token)))
   \<and> Js_ExplainToken ''/'' = Some ''No flags specified''
   \<and> (flags \<noteq> [] \<and> list_all (\<lambda>c. of_char c < (128::nat)) flags
        \<longrightarrow> explainJsFlags flags = ''Flags: '' @ Join (map (\<lambda>c. explainJsFlag [c]) flags) '', '')
   \<and> TokenizeRegex JsFormat ''(/x)'' = Some [''('', ''/x'', '')'']
   \<and> Js_ExplainToken ''/x'' = Some ''Flags: x: Unknown flag''"
proof (intro conjI impI)
  assume "HasPrefix token ''/''"
  moreover from this have "1 \<le> length token" by (simp add: HasPrefix_def)
  ultimately show "Js_ExplainToken token = Some (explainJsFlags (drop 1 token))"
    by (simp add: Js_ExplainToken_def)
next
  show "Js_ExplainToken ''/'' = Some ''No flags specified''" by code_simp
next
  assume "flags \<noteq> [] \<and> list_all (\<lambda>c. of_char c < (128::nat)) flags"
  then show "explainJsFlags flags = ''Flags: '' @ Join (map (\<lambda>c. explainJsFlag [c]) flags) '', ''"
    by (simp add: explainJsFlags_def range_runes_ascii comp_def)
next
  show "TokenizeRegex JsFormat ''(/x)'' = Some [''('', ''/x'', '')'']" by code_simp
  show "Js_ExplainToken ''/x'' = Some ''Flags: x: Unknown flag''" by code_simp
qed

theorem js_slash_tokens_are_flags_witness:
  "Js_ExplainToken ''/gi'' = Some (explainJsFlags ''gi'')
   \<and> explainJsFlags ''gi'' = ''Flags: '' @ Join [explainJsFlag ''g'', explainJsFlag ''i''] '', ''"
  using js_slash_tokens_are_flags [of "''/gi''" "''gi''"]
  by (simp add: HasPrefix_def)

end
